theory Spec2Isabelle
  imports Main "HOL-Library.Word" "HOL-Library.AList" "HOL-Library.Multiset"
begin

unbundle bit_operations_syntax

section \<open>Absent ranges of a transaction context\<close>

text \<open>
  The source file \<open>txn_impl.h\<close> implements the members of the class template
  \<open>transaction\<close>; the declarations it relies on live in txn.h, which is not among
  the sources. Keys are byte strings compared lexicographically; the development is
  polymorphic in a linearly ordered key type with a least element, the least element
  standing for the default-constructed (empty) key.
\<close>

text \<open>
  Modelled from the spec: the struct \<open>key_range_t\<close> of txn.h, a half-open range
  \<open>[a, b)\<close> whose upper bound is present only when \<open>has_b\<close> holds, with its three
  constructors (open-ended, bounded, and with an explicit \<open>has_b\<close>).
\<close>

record 'k key_range_t =
  a :: 'k
  has_b :: bool
  b :: 'k






text \<open>
  Modelled from the spec: \<open>key_range_t::key_in_range\<close> of txn.h, membership of a key in
  the half-open range.
\<close>

definition key_in_range :: "'k::linorder key_range_t \<Rightarrow> 'k \<Rightarrow> bool" where
  "key_in_range x k = (a x \<le> k \<and> (\<not> has_b x \<or> k < b x))"





text \<open>
  Failures are values: an exception thrown by the source, or a failed \<open>INVARIANT\<close>,
  which the spec classifies as a fatal internal fault.
\<close>

datatype abort_reason =
  ABORT_REASON_USER
  | ABORT_REASON_WRITE_NODE_INTERFERENCE
  | ABORT_REASON_READ_NODE_INTEREFERENCE
  | ABORT_REASON_READ_ABSENCE_INTEREFERENCE
  | ABORT_REASON_NODE_SCAN_READ_VERSION_CHANGED

datatype fault =
  transaction_unusable_exception
  | transaction_abort_exception abort_reason
  | invariant_failure






section \<open>Transactions\<close>

text \<open>
  Pointers to tuples, indexes and index nodes are numbers; a pointer that may be null
  is an \<open>option\<close>. Tids, version words and node versions are 64-bit words.
\<close>

type_synonym tid_t = "64 word"
type_synonym version_t = "64 word"
type_synonym dbtuple_ptr = nat
type_synonym btree_ptr = nat
type_synonym node_ptr = nat
type_synonym string_type = string

datatype txn_state = TXN_EMBRYO | TXN_ACTIVE | TXN_COMMITED | TXN_ABRT

text \<open>
  Modelled from the spec: the records of the per-index transaction context, declared
  in txn.h. A read-set entry holds the observed tid \<open>t\<close> and the flag \<open>holds_lock\<close>;
  an absent-set entry holds its kind and the tuple saved for it; a write-set entry
  holds the new bytes \<open>r\<close> and the insert hint (\<open>insert\<close> in the source, \<open>insert_w\<close>
  here); \<open>dbtuple_info\<close> is what commit remembers for each write tuple (the source's
  fields \<open>insert\<close> and \<open>r\<close> are \<open>insert_i\<close> and \<open>r_i\<close> here).
\<close>

record read_record_t =
  t :: tid_t
  holds_lock :: bool

datatype absent_record_type = ABSENT_REC_READ | ABSENT_REC_WRITE | ABSENT_REC_INSERT

record absent_record_t =
  type :: absent_record_type
  tuple :: "dbtuple_ptr option"

record write_record_t =
  r :: string_type
  insert_w :: bool

record 'k dbtuple_info =
  btr :: btree_ptr
  key :: 'k
  insert_i :: bool
  r_i :: string_type
  locked :: bool

text \<open>
  The maps of a context are association lists: \<open>find\<close> is \<open>map_of\<close>, iteration follows
  the list, and an entry is changed in place with \<open>AList.update\<close>.
\<close>

record 'k txn_context =
  read_set :: "(dbtuple_ptr \<times> read_record_t) list"
  absent_set :: "('k \<times> absent_record_t) list"
  write_set :: "('k \<times> write_record_t) list"
  node_scan :: "(node_ptr \<times> 64 word) list"
  absent_range_set :: "'k key_range_t list"

record 'k transaction =
  state :: txn_state
  reason :: abort_reason
  flags :: "64 word"
  ctx_map :: "(btree_ptr \<times> 'k txn_context) list"

text \<open>
  Modelled from the spec: the flag bits of txn.h, two distinct bits of the flags word.
\<close>

definition TXN_FLAG_LOW_LEVEL_SCAN :: "64 word" where
  "TXN_FLAG_LOW_LEVEL_SCAN = 1"

definition TXN_FLAG_READ_ONLY :: "64 word" where
  "TXN_FLAG_READ_ONLY = 2"

text \<open>\<open>transaction::clear\<close>: the source clears nothing.\<close>

definition clear :: "'k transaction \<Rightarrow> 'k transaction" where
  "clear txn = txn"

text \<open>
  \<open>transaction::abort_impl\<close>. The hook \<open>abort_trap\<close> does not touch the transaction.
\<close>

definition abort_impl :: "'k transaction \<Rightarrow> abort_reason \<Rightarrow> fault + 'k transaction" where
  "abort_impl txn rsn =
     (case state txn of
        TXN_EMBRYO \<Rightarrow> Inr (clear (txn\<lparr>state := TXN_ABRT, reason := rsn\<rparr>))
      | TXN_ACTIVE \<Rightarrow> Inr (clear (txn\<lparr>state := TXN_ABRT, reason := rsn\<rparr>))
      | TXN_ABRT \<Rightarrow> Inr txn
      | TXN_COMMITED \<Rightarrow> Inl transaction_unusable_exception)"

subsection \<open>The collaborators of commit\<close>

text \<open>
  \<open>commit\<close> calls the tuple (\<open>dbtuple\<close>), the index (\<open>btree\<close>) and the concurrency
  protocol (\<open>cast()\<close>); none of them is among the sources. They are parameters of the
  model: a record of functions over a state \<open>'w\<close> of everything outside the
  transaction object. An operation that changes that state returns the new one; a read
  is a function of the state at the point of the call. \<open>search\<close> returns the tuple
  found, \<open>insert_if_absent\<close> returns \<open>insert_info\<close> when it succeeds,
  \<open>btree_insert\<close> returns its result and \<open>old_v\<close>, \<open>write_record_at\<close> returns the spill
  flag and the replacement tuple, \<open>search_range_failed\<close> is \<open>search_range_call\<close> with an
  \<open>absent_range_validation_callback\<close> followed by its \<open>failed()\<close>.
\<close>

record ('w, 'k) env =
  consistent_snapshot_tid :: "'w \<Rightarrow> bool \<times> tid_t"
  can_read_tid :: "tid_t \<Rightarrow> 'w \<Rightarrow> bool"
  gen_commit_tid :: "(dbtuple_ptr \<times> 'k dbtuple_info) list \<Rightarrow> 'w \<Rightarrow> tid_t \<times> 'w"
  on_tid_finish :: "tid_t \<Rightarrow> 'w \<Rightarrow> 'w"
  on_dbtuple_spill :: "btree_ptr \<Rightarrow> 'k \<Rightarrow> dbtuple_ptr \<Rightarrow> 'w \<Rightarrow> 'w"
  on_logical_delete :: "btree_ptr \<Rightarrow> 'k \<Rightarrow> dbtuple_ptr \<Rightarrow> 'w \<Rightarrow> 'w"
  search :: "btree_ptr \<Rightarrow> 'k \<Rightarrow> 'w \<Rightarrow> dbtuple_ptr option"
  insert_if_absent ::
    "btree_ptr \<Rightarrow> 'k \<Rightarrow> dbtuple_ptr \<Rightarrow> 'w \<Rightarrow> (node_ptr option \<times> 64 word) option \<times> 'w"
  btree_insert ::
    "btree_ptr \<Rightarrow> 'k \<Rightarrow> dbtuple_ptr \<Rightarrow> 'w \<Rightarrow> (bool \<times> dbtuple_ptr option) \<times> 'w"
  search_range_failed :: "btree_ptr \<Rightarrow> 'k txn_context \<Rightarrow> 'k key_range_t \<Rightarrow> 'w \<Rightarrow> bool"
  ExtractVersionNumber :: "node_ptr \<Rightarrow> 'w \<Rightarrow> 64 word"
  is_mostly_append :: "btree_ptr \<Rightarrow> bool"
  alloc_first :: "bool \<Rightarrow> string_type \<Rightarrow> 'w \<Rightarrow> dbtuple_ptr \<times> 'w"
  release_no_rcu :: "dbtuple_ptr \<Rightarrow> 'w \<Rightarrow> 'w"
  lock :: "dbtuple_ptr \<Rightarrow> bool \<Rightarrow> 'w \<Rightarrow> version_t \<times> 'w"
  unlock :: "dbtuple_ptr \<Rightarrow> 'w \<Rightarrow> 'w"
  is_latest :: "dbtuple_ptr \<Rightarrow> 'w \<Rightarrow> bool"
  IsLatest :: "version_t \<Rightarrow> bool"
  IsDeleting :: "version_t \<Rightarrow> bool"
  version :: "dbtuple_ptr \<Rightarrow> 'w \<Rightarrow> tid_t"
  set_version :: "dbtuple_ptr \<Rightarrow> tid_t \<Rightarrow> 'w \<Rightarrow> 'w"
  tuple_size :: "dbtuple_ptr \<Rightarrow> 'w \<Rightarrow> nat"
  get_value_start :: "dbtuple_ptr \<Rightarrow> 'w \<Rightarrow> string_type"
  mark_modifying :: "dbtuple_ptr \<Rightarrow> 'w \<Rightarrow> 'w"
  is_latest_version :: "dbtuple_ptr \<Rightarrow> tid_t \<Rightarrow> 'w \<Rightarrow> bool"
  stable_is_latest_version :: "dbtuple_ptr \<Rightarrow> tid_t \<Rightarrow> 'w \<Rightarrow> bool"
  latest_value_is_nil :: "dbtuple_ptr \<Rightarrow> 'w \<Rightarrow> bool"
  stable_latest_value_is_nil :: "dbtuple_ptr \<Rightarrow> 'w \<Rightarrow> bool"
  write_record_at ::
    "dbtuple_ptr \<Rightarrow> tid_t \<Rightarrow> string_type \<Rightarrow> 'w \<Rightarrow> (bool \<times> dbtuple_ptr option) \<times> 'w"

subsection \<open>The phases of commit\<close>

text \<open>
  Where a phase stops: it runs to its end (\<open>Continue\<close>), it stores an abort reason and
  jumps to \<open>do_abort\<close> (\<open>Abort\<close>), or an \<open>INVARIANT\<close> fails (\<open>Fault\<close>). Each carries the
  state reached.
\<close>

datatype 'a step = Continue 'a | Abort abort_reason 'a | Fault 'a

text \<open>
  "Mark that we (will) hold lock in read set": the read-set entry of the tuple, if
  there is one, gets \<open>holds_lock\<close>. \<open>None\<close> is the failed \<open>INVARIANT\<close>.
\<close>

definition mark_read_set :: "dbtuple_ptr \<Rightarrow> 'k txn_context \<Rightarrow> 'k txn_context option" where
  "mark_read_set v ctx =
     (case map_of (read_set ctx) v of
        None \<Rightarrow> Some ctx
      | Some read_it \<Rightarrow>
          if holds_lock read_it then None
          else Some (ctx\<lparr>read_set := AList.update v (read_it\<lparr>holds_lock := True\<rparr>) (read_set ctx)\<rparr>))"

text \<open>
  "Mark that we (will) hold lock in absent set": the absent-set entry of the key, if
  there is one, gets the new kind and the tuple.
\<close>

definition mark_absent_set ::
  "'k \<Rightarrow> absent_record_type \<Rightarrow> dbtuple_ptr \<Rightarrow> 'k txn_context \<Rightarrow> 'k txn_context option"
where
  "mark_absent_set k ty v ctx =
     (if absent_set ctx = [] then Some ctx
      else
        (case map_of (absent_set ctx) k of
           None \<Rightarrow> Some ctx
         | Some absent_it \<Rightarrow>
             if type absent_it \<noteq> ABSENT_REC_READ then None
             else Some (ctx\<lparr>absent_set :=
                    AList.update k (absent_it\<lparr>type := ty, tuple := Some v\<rparr>) (absent_set ctx)\<rparr>)))"

text \<open>The branch of Phase A taken when \<open>search\<close> finds the key.\<close>

definition write_found ::
  "btree_ptr \<Rightarrow> 'k \<Rightarrow> write_record_t \<Rightarrow> dbtuple_ptr \<Rightarrow>
   'k txn_context \<times> (dbtuple_ptr \<times> 'k dbtuple_info) list \<times> 'w \<Rightarrow>
   ('k txn_context \<times> (dbtuple_ptr \<times> 'k dbtuple_info) list \<times> 'w) step"
where
  "write_found bt k writerec v s =
     (case s of (ctx, dbtuples, w) \<Rightarrow>
        let dbtuples' = dbtuples @
              [(v, \<lparr>btr = bt, key = k, insert_i = False, r_i = r writerec, locked = False\<rparr>)]
        in case mark_read_set v ctx of
             None \<Rightarrow> Fault (ctx, dbtuples', w)
           | Some ctx1 \<Rightarrow>
               (case mark_absent_set k ABSENT_REC_WRITE v ctx1 of
                  None \<Rightarrow> Fault (ctx1, dbtuples', w)
                | Some ctx2 \<Rightarrow> Continue (ctx2, dbtuples', w)))"

text \<open>
  "Update node #s": under \<open>TXN_FLAG_LOW_LEVEL_SCAN\<close>, the entry of \<open>node_scan\<close> for the
  leaf node that the insert returned is compared with the version the insert reports
  and, when they agree, incremented (a 64-bit increment, which wraps).
\<close>

definition update_node_scan ::
  "64 word \<Rightarrow> node_ptr option \<times> 64 word \<Rightarrow> 'k txn_context \<Rightarrow> 'k txn_context step"
where
  "update_node_scan flgs insert_info ctx =
     (if flgs AND TXN_FLAG_LOW_LEVEL_SCAN \<noteq> 0 then
        (case fst insert_info of
           None \<Rightarrow> Fault ctx
         | Some node \<Rightarrow>
             (case map_of (node_scan ctx) node of
                None \<Rightarrow> Continue ctx
              | Some nit \<Rightarrow>
                  if nit \<noteq> snd insert_info then Abort ABORT_REASON_WRITE_NODE_INTERFERENCE ctx
                  else Continue (ctx\<lparr>node_scan := AList.update node (nit + 1) (node_scan ctx)\<rparr>)))
      else Continue ctx)"

text \<open>The branch of Phase A taken after \<open>insert_if_absent\<close> succeeded.\<close>

definition write_inserted ::
  "64 word \<Rightarrow> btree_ptr \<Rightarrow> 'k \<Rightarrow> write_record_t \<Rightarrow> dbtuple_ptr \<Rightarrow> node_ptr option \<times> 64 word \<Rightarrow>
   'k txn_context \<times> (dbtuple_ptr \<times> 'k dbtuple_info) list \<times> 'w \<Rightarrow>
   ('k txn_context \<times> (dbtuple_ptr \<times> 'k dbtuple_info) list \<times> 'w) step"
where
  "write_inserted flgs bt k writerec tup insert_info s =
     (case s of (ctx, dbtuples, w) \<Rightarrow>
        (case update_node_scan flgs insert_info ctx of
           Fault ctx0 \<Rightarrow> Fault (ctx0, dbtuples, w)
         | Abort rsn ctx0 \<Rightarrow> Abort rsn (ctx0, dbtuples, w)
         | Continue ctx0 \<Rightarrow>
             let dbtuples' = dbtuples @
                   [(tup, \<lparr>btr = bt, key = k, insert_i = True, r_i = r writerec, locked = True\<rparr>)]
             in case mark_read_set tup ctx0 of
                  None \<Rightarrow> Fault (ctx0, dbtuples', w)
                | Some ctx1 \<Rightarrow>
                    (case mark_absent_set k ABSENT_REC_INSERT tup ctx1 of
                       None \<Rightarrow> Fault (ctx1, dbtuples', w)
                     | Some ctx2 \<Rightarrow> Continue (ctx2, dbtuples', w))))"

text \<open>
  The body of the write-set loop of Phase A for one key, with its \<open>retry\<close> label. A
  failed \<open>insert_if_absent\<close> unlocks and releases the fresh tuple and jumps back with
  \<open>try_insert_path\<close> off; nothing bounds the number of rounds, so the result is an
  \<open>option\<close> and \<open>None\<close> stands for a loop that never ends.
\<close>

partial_function (option) find_write_node ::
  "('w, 'k) env \<Rightarrow> 64 word \<Rightarrow> btree_ptr \<Rightarrow> 'k \<Rightarrow> write_record_t \<Rightarrow> bool \<Rightarrow>
   'k txn_context \<times> (dbtuple_ptr \<times> 'k dbtuple_info) list \<times> 'w \<Rightarrow>
   ('k txn_context \<times> (dbtuple_ptr \<times> 'k dbtuple_info) list \<times> 'w) step option"
where
  "find_write_node e flgs bt k writerec try_insert_path s =
     (case s of (ctx, dbtuples, w) \<Rightarrow>
        (case (if try_insert_path then None else search e bt k w) of
           Some v \<Rightarrow> Some (write_found bt k writerec v (ctx, dbtuples, w))
         | None \<Rightarrow>
             (case alloc_first e (\<not> is_mostly_append e bt) (r writerec) w of
                (tup, w1) \<Rightarrow>
                  if \<not> is_latest e tup w1 then Some (Fault (ctx, dbtuples, w1))
                  else
                    (case lock e tup True w1 of
                       (v0, w2) \<Rightarrow>
                         (case insert_if_absent e bt k tup w2 of
                            (None, w3) \<Rightarrow>
                              find_write_node e flgs bt k writerec False
                                (ctx, dbtuples, release_no_rcu e tup (unlock e tup w3))
                          | (Some insert_info, w3) \<Rightarrow>
                              Some (write_inserted flgs bt k writerec tup insert_info
                                      (ctx, dbtuples, w3)))))))"

text \<open>The loop over the write set of one context.\<close>

fun find_write_nodes_ctx ::
  "('w, 'k) env \<Rightarrow> 64 word \<Rightarrow> btree_ptr \<Rightarrow> ('k \<times> write_record_t) list \<Rightarrow>
   'k txn_context \<times> (dbtuple_ptr \<times> 'k dbtuple_info) list \<times> 'w \<Rightarrow>
   ('k txn_context \<times> (dbtuple_ptr \<times> 'k dbtuple_info) list \<times> 'w) step option"
where
  "find_write_nodes_ctx e flgs bt [] s = Some (Continue s)"
| "find_write_nodes_ctx e flgs bt ((k, writerec) # ws) s =
     (case find_write_node e flgs bt k writerec (insert_w writerec) s of
        None \<Rightarrow> None
      | Some (Continue s') \<Rightarrow> find_write_nodes_ctx e flgs bt ws s'
      | Some (Abort rsn s') \<Rightarrow> Some (Abort rsn s')
      | Some (Fault s') \<Rightarrow> Some (Fault s'))"

text \<open>
  Phase A (\<open>find_write_nodes\<close>): the loop over \<open>ctx_map\<close>. The contexts already
  visited are collected in \<open>visited\<close>; the result holds the whole map again.
\<close>

fun find_write_nodes ::
  "('w, 'k) env \<Rightarrow> 64 word \<Rightarrow> (btree_ptr \<times> 'k txn_context) list \<Rightarrow>
   (btree_ptr \<times> 'k txn_context) list \<Rightarrow> (dbtuple_ptr \<times> 'k dbtuple_info) list \<Rightarrow> 'w \<Rightarrow>
   ((btree_ptr \<times> 'k txn_context) list \<times> (dbtuple_ptr \<times> 'k dbtuple_info) list \<times> 'w) step option"
where
  "find_write_nodes e flgs [] visited dbtuples w = Some (Continue (visited, dbtuples, w))"
| "find_write_nodes e flgs ((bt, ctx) # rest) visited dbtuples w =
     (if flgs AND TXN_FLAG_READ_ONLY \<noteq> 0 \<and> write_set ctx \<noteq> [] then
        Some (Fault (visited @ (bt, ctx) # rest, dbtuples, w))
      else if write_set ctx = [] then
        find_write_nodes e flgs rest (visited @ [(bt, ctx)]) dbtuples w
      else
        (case find_write_nodes_ctx e flgs bt (write_set ctx) (ctx, dbtuples, w) of
           None \<Rightarrow> None
         | Some (Continue (ctx', dbtuples', w')) \<Rightarrow>
             find_write_nodes e flgs rest (visited @ [(bt, ctx')]) dbtuples' w'
         | Some (Abort rsn (ctx', dbtuples', w')) \<Rightarrow>
             Some (Abort rsn (visited @ (bt, ctx') # rest, dbtuples', w'))
         | Some (Fault (ctx', dbtuples', w')) \<Rightarrow>
             Some (Fault (visited @ (bt, ctx') # rest, dbtuples', w'))))"

text \<open>
  Modelled from the spec: the comparator \<open>LNodeComp\<close> of txn.h, "sort by stable tuple
  identity (pointer order)". \<open>std::sort\<close> with it is a sort on the tuple pointer;
  it leaves the order of entries with equal pointers open, the model keeps them in
  their original order.
\<close>

definition sort_dbtuples ::
  "(dbtuple_ptr \<times> 'k dbtuple_info) list \<Rightarrow> (dbtuple_ptr \<times> 'k dbtuple_info) list" where
  "sort_dbtuples dbtuples = sort_key fst dbtuples"

text \<open>
  The locking loop of Phase B (\<open>lock_write_nodes\<close>) over the sorted vector. The result
  holds the vector with the \<open>locked\<close> flags set so far.
\<close>

fun lock_write_nodes ::
  "('w, 'k) env \<Rightarrow> (dbtuple_ptr \<times> 'k dbtuple_info) list \<Rightarrow> 'w \<Rightarrow>
   ((dbtuple_ptr \<times> 'k dbtuple_info) list \<times> 'w) step"
where
  "lock_write_nodes e [] w = Continue ([], w)"
| "lock_write_nodes e ((p, info) # ds) w =
     (if locked info then
        (case lock_write_nodes e ds w of
           Continue (ds', w') \<Rightarrow> Continue ((p, info) # ds', w')
         | Abort rsn (ds', w') \<Rightarrow> Abort rsn ((p, info) # ds', w')
         | Fault (ds', w') \<Rightarrow> Fault ((p, info) # ds', w'))
      else
        (case lock e p True w of
           (v, w1) \<Rightarrow>
             if IsLatest e v \<noteq> is_latest e p w1 then Fault ((p, info) # ds, w1)
             else if IsDeleting e v \<or> \<not> IsLatest e v \<or> \<not> can_read_tid e (version e p w1) w1 then
               Abort ABORT_REASON_WRITE_NODE_INTERFERENCE ((p, info\<lparr>locked := True\<rparr>) # ds, w1)
             else
               (case lock_write_nodes e ds w1 of
                  Continue (ds', w') \<Rightarrow> Continue ((p, info\<lparr>locked := True\<rparr>) # ds', w')
                | Abort rsn (ds', w') \<Rightarrow> Abort rsn ((p, info\<lparr>locked := True\<rparr>) # ds', w')
                | Fault (ds', w') \<Rightarrow> Fault ((p, info\<lparr>locked := True\<rparr>) # ds', w'))))"

text \<open>
  Phase B: sort, lock, and mint the commit tid. The result holds the vector, the pair
  \<open>commit_tid\<close> and the outside state.
\<close>

definition lock_phase ::
  "('w, 'k) env \<Rightarrow> (dbtuple_ptr \<times> 'k dbtuple_info) list \<Rightarrow> 'w \<Rightarrow>
   ((dbtuple_ptr \<times> 'k dbtuple_info) list \<times> (bool \<times> tid_t) \<times> 'w) step"
where
  "lock_phase e dbtuples w =
     (if dbtuples \<noteq> [] then
        (case lock_write_nodes e (sort_dbtuples dbtuples) w of
           Continue (ds, w') \<Rightarrow>
             (case gen_commit_tid e ds w' of (tid, w'') \<Rightarrow> Continue (ds, (True, tid), w''))
         | Abort rsn (ds, w') \<Rightarrow> Abort rsn (ds, (False, 0), w')
         | Fault (ds, w') \<Rightarrow> Fault (ds, (False, 0), w'))
      else Continue (dbtuples, (False, 0), w))"

text \<open>Phase C, the read-set check of one context.\<close>

fun validate_read_set ::
  "('w, 'k) env \<Rightarrow> (dbtuple_ptr \<times> read_record_t) list \<Rightarrow> 'w \<Rightarrow> unit step" where
  "validate_read_set e [] w = Continue ()"
| "validate_read_set e ((tup, rec) # es) w =
     (if (if holds_lock rec then is_latest_version e tup (t rec) w
          else stable_is_latest_version e tup (t rec) w)
      then validate_read_set e es w
      else Abort ABORT_REASON_READ_NODE_INTEREFERENCE ())"

text \<open>Phase C, the absent-set check of one context.\<close>

fun validate_absent_set ::
  "('w, 'k) env \<Rightarrow> btree_ptr \<Rightarrow> ('k \<times> absent_record_t) list \<Rightarrow> 'w \<Rightarrow> unit step" where
  "validate_absent_set e bt [] w = Continue ()"
| "validate_absent_set e bt ((k, rec) # es) w =
     (if type rec = ABSENT_REC_INSERT then validate_absent_set e bt es w
      else if type rec = ABSENT_REC_WRITE then
        (case tuple rec of
           None \<Rightarrow> Fault ()
         | Some tup \<Rightarrow>
             if latest_value_is_nil e tup w then validate_absent_set e bt es w
             else Abort ABORT_REASON_READ_ABSENCE_INTEREFERENCE ())
      else if tuple rec \<noteq> None then Fault ()
      else
        (case search e bt k w of
           None \<Rightarrow> validate_absent_set e bt es w
         | Some tup \<Rightarrow>
             if stable_latest_value_is_nil e tup w then validate_absent_set e bt es w
             else Abort ABORT_REASON_READ_ABSENCE_INTEREFERENCE ()))"

text \<open>Phase C, the two phantom checks.\<close>

fun validate_node_scan :: "('w, 'k) env \<Rightarrow> (node_ptr \<times> 64 word) list \<Rightarrow> 'w \<Rightarrow> unit step" where
  "validate_node_scan e [] w = Continue ()"
| "validate_node_scan e ((node, v) # es) w =
     (if ExtractVersionNumber e node w \<noteq> v then
        Abort ABORT_REASON_NODE_SCAN_READ_VERSION_CHANGED ()
      else validate_node_scan e es w)"

fun validate_absent_ranges ::
  "('w, 'k) env \<Rightarrow> btree_ptr \<Rightarrow> 'k txn_context \<Rightarrow> 'k key_range_t list \<Rightarrow> 'w \<Rightarrow> unit step" where
  "validate_absent_ranges e bt ctx [] w = Continue ()"
| "validate_absent_ranges e bt ctx (rng # es) w =
     (if search_range_failed e bt ctx rng w then Abort ABORT_REASON_WRITE_NODE_INTERFERENCE ()
      else validate_absent_ranges e bt ctx es w)"

text \<open>Phase C for one context: read set, absent set, then the phantom check.\<close>

definition validate_context ::
  "('w, 'k) env \<Rightarrow> 64 word \<Rightarrow> btree_ptr \<times> 'k txn_context \<Rightarrow> 'w \<Rightarrow> unit step" where
  "validate_context e flgs c w =
     (case c of (bt, ctx) \<Rightarrow>
        (case (if read_set ctx \<noteq> [] then validate_read_set e (read_set ctx) w else Continue ()) of
           Abort rsn u \<Rightarrow> Abort rsn u
         | Fault u \<Rightarrow> Fault u
         | Continue u \<Rightarrow>
             (case (if absent_set ctx \<noteq> [] then validate_absent_set e bt (absent_set ctx) w
                    else Continue ()) of
                Abort rsn u \<Rightarrow> Abort rsn u
              | Fault u \<Rightarrow> Fault u
              | Continue u \<Rightarrow>
                  if flgs AND TXN_FLAG_LOW_LEVEL_SCAN \<noteq> 0 then
                    (if absent_range_set ctx \<noteq> [] then Fault ()
                     else if node_scan ctx \<noteq> [] then validate_node_scan e (node_scan ctx) w
                     else Continue ())
                  else
                    (if node_scan ctx \<noteq> [] then Fault ()
                     else validate_absent_ranges e bt ctx (absent_range_set ctx) w))))"

text \<open>Phase C (\<open>read_validation\<close>): the loop over \<open>ctx_map\<close>.\<close>

fun read_validation ::
  "('w, 'k) env \<Rightarrow> 64 word \<Rightarrow> (btree_ptr \<times> 'k txn_context) list \<Rightarrow> 'w \<Rightarrow> unit step" where
  "read_validation e flgs [] w = Continue ()"
| "read_validation e flgs (c # cs) w =
     (case validate_context e flgs c w of
        Continue u \<Rightarrow> read_validation e flgs cs w
      | Abort rsn u \<Rightarrow> Abort rsn u
      | Fault u \<Rightarrow> Fault u)"

text \<open>
  Phase D (\<open>write_records\<close>) for one tuple that is not a fresh insert: the new record
  is written, a replacement tuple is locked by the \<open>lock_guard\<close>, swapped into the index
  and unlocked again when the guard leaves its scope.
\<close>

definition write_record ::
  "('w, 'k) env \<Rightarrow> tid_t \<Rightarrow> dbtuple_ptr \<Rightarrow> 'k dbtuple_info \<Rightarrow> 'w \<Rightarrow> 'w step" where
  "write_record e tid p info w =
     (case write_record_at e p tid (r_i info) w of
        ((spilled, replacement), w1) \<Rightarrow>
          (case replacement of
             None \<Rightarrow>
               let w2 = (if spilled then on_dbtuple_spill e (btr info) (key info) p w1 else w1);
                   w3 = (if r_i info = [] then on_logical_delete e (btr info) (key info) p w2 else w2)
               in Continue w3
           | Some q \<Rightarrow>
               (case lock e q True w1 of
                  (v, w2) \<Rightarrow>
                    (case btree_insert e (btr info) (key info) q w2 of
                       ((inserted, old_v), w3) \<Rightarrow>
                         if inserted then Fault w3
                         else if old_v \<noteq> Some p then Fault w3
                         else
                           let w4 = (if spilled then on_dbtuple_spill e (btr info) (key info) q w3
                                     else w3);
                               w5 = (if r_i info = []
                                     then on_logical_delete e (btr info) (key info) q w4 else w4)
                           in Continue (unlock e q w5)))))"

text \<open>Phase D: the loop over the vector.\<close>

fun write_records ::
  "('w, 'k) env \<Rightarrow> tid_t \<Rightarrow> (dbtuple_ptr \<times> 'k dbtuple_info) list \<Rightarrow> 'w \<Rightarrow> 'w step" where
  "write_records e tid [] w = Continue w"
| "write_records e tid ((p, info) # ds) w =
     (if \<not> locked info then Fault w
      else if insert_i info then
        (let w1 = set_version e p tid (mark_modifying e p w) in
         if tuple_size e p w1 \<noteq> length (r_i info) then Fault w1
         else if take (tuple_size e p w1) (get_value_start e p w1) \<noteq>
                 take (tuple_size e p w1) (r_i info) then Fault w1
         else write_records e tid ds (unlock e p w1))
      else
        (case write_record e tid p info w of
           Continue w1 \<Rightarrow> write_records e tid ds (unlock e p w1)
         | Abort rsn w1 \<Rightarrow> Abort rsn w1
         | Fault w1 \<Rightarrow> Fault w1))"

subsection \<open>Commit\<close>

text \<open>What a call of \<open>commit\<close> gives back: its return value, or the exception.\<close>

datatype commit_result = Returned bool | Thrown fault

text \<open>The successful end of \<open>commit\<close>.\<close>

definition finish_commit ::
  "('w, 'k) env \<Rightarrow> 'k transaction \<Rightarrow> bool \<times> tid_t \<Rightarrow> 'w \<Rightarrow> commit_result \<times> 'k transaction \<times> 'w"
where
  "finish_commit e txn commit_tid w =
     (Returned True, clear (txn\<lparr>state := TXN_COMMITED\<rparr>),
      if fst commit_tid then on_tid_finish e (snd commit_tid) w else w)"

text \<open>
  The label \<open>do_abort\<close>: every tuple of the vector that is marked locked is unlocked,
  the state becomes \<open>TXN_ABRT\<close>, and the stored reason is thrown or \<open>false\<close> returned.
\<close>

definition unlock_all ::
  "('w, 'k) env \<Rightarrow> (dbtuple_ptr \<times> 'k dbtuple_info) list \<Rightarrow> 'w \<Rightarrow> 'w" where
  "unlock_all e dbtuples w =
     fold (\<lambda>d w'. if locked (snd d) then unlock e (fst d) w' else w') dbtuples w"

definition do_abort ::
  "('w, 'k) env \<Rightarrow> bool \<Rightarrow> 'k transaction \<Rightarrow> (dbtuple_ptr \<times> 'k dbtuple_info) list \<Rightarrow>
   bool \<times> tid_t \<Rightarrow> 'w \<Rightarrow> commit_result \<times> 'k transaction \<times> 'w"
where
  "do_abort e doThrow txn dbtuples commit_tid w =
     (let w1 = unlock_all e dbtuples w;
          w2 = (if fst commit_tid then on_tid_finish e (snd commit_tid) w1 else w1)
      in (if doThrow then Thrown (transaction_abort_exception (reason txn)) else Returned False,
          clear (txn\<lparr>state := TXN_ABRT\<rparr>), w2))"

text \<open>
  Phases C and D and the end of \<open>commit\<close>, after the lock phase went through with the
  vector \<open>ds\<close> and the pair \<open>commit_tid\<close>.
\<close>

definition validate_and_write ::
  "('w, 'k) env \<Rightarrow> bool \<Rightarrow> 'k transaction \<Rightarrow> (dbtuple_ptr \<times> 'k dbtuple_info) list \<Rightarrow>
   bool \<times> tid_t \<Rightarrow> 'w \<Rightarrow> commit_result \<times> 'k transaction \<times> 'w"
where
  "validate_and_write e doThrow txn ds commit_tid w1 =
     (case read_validation e (flags txn) (ctx_map txn) w1 of
        Fault u \<Rightarrow> (Thrown invariant_failure, txn, w1)
      | Abort rsn u \<Rightarrow> do_abort e doThrow (txn\<lparr>reason := rsn\<rparr>) ds commit_tid w1
      | Continue u \<Rightarrow>
          (case (if ds \<noteq> [] then write_records e (snd commit_tid) ds w1
                 else Continue w1) of
             Fault w2 \<Rightarrow> (Thrown invariant_failure, txn, w2)
           | Abort rsn w2 \<Rightarrow> do_abort e doThrow (txn\<lparr>reason := rsn\<rparr>) ds commit_tid w2
           | Continue w2 \<Rightarrow> finish_commit e txn commit_tid w2))"

text \<open>Phases B, C and D and the end of \<open>commit\<close>, after Phase A went through.\<close>

definition commit_phases ::
  "('w, 'k) env \<Rightarrow> bool \<Rightarrow> bool \<times> tid_t \<Rightarrow> 'k transaction \<Rightarrow>
   (dbtuple_ptr \<times> 'k dbtuple_info) list \<Rightarrow> 'w \<Rightarrow> commit_result \<times> 'k transaction \<times> 'w"
where
  "commit_phases e doThrow snapshot_tid_t txn dbtuples w =
     (if \<not> fst snapshot_tid_t \<or> dbtuples \<noteq> [] then
        (case lock_phase e dbtuples w of
           Fault (ds, commit_tid, w1) \<Rightarrow> (Thrown invariant_failure, txn, w1)
         | Abort rsn (ds, commit_tid, w1) \<Rightarrow>
             do_abort e doThrow (txn\<lparr>reason := rsn\<rparr>) ds commit_tid w1
         | Continue (ds, commit_tid, w1) \<Rightarrow> validate_and_write e doThrow txn ds commit_tid w1)
      else finish_commit e txn (False, 0) w)"

text \<open>
  \<open>transaction::commit\<close>. The result is the return value or exception, the transaction
  afterwards and the outside state; \<open>None\<close> when the retry loop of Phase A never ends.
\<close>

definition commit ::
  "('w, 'k) env \<Rightarrow> bool \<Rightarrow> 'k transaction \<Rightarrow> 'w \<Rightarrow>
   (commit_result \<times> 'k transaction \<times> 'w) option"
where
  "commit e doThrow txn w =
     (case state txn of
        TXN_COMMITED \<Rightarrow> Some (Returned True, txn, w)
      | TXN_ABRT \<Rightarrow>
          Some (if doThrow then Thrown (transaction_abort_exception (reason txn))
                else Returned False, txn, w)
      | _ \<Rightarrow>
          (let snapshot_tid_t = consistent_snapshot_tid e w in
           case find_write_nodes e (flags txn) (ctx_map txn) [] [] w of
             None \<Rightarrow> None
           | Some (Fault (cm, dbtuples, w1)) \<Rightarrow>
               Some (Thrown invariant_failure, txn\<lparr>ctx_map := cm\<rparr>, w1)
           | Some (Abort rsn (cm, dbtuples, w1)) \<Rightarrow>
               Some (do_abort e doThrow (txn\<lparr>ctx_map := cm, reason := rsn\<rparr>) dbtuples (False, 0) w1)
           | Some (Continue (cm, dbtuples, w1)) \<Rightarrow>
               Some (commit_phases e doThrow snapshot_tid_t (txn\<lparr>ctx_map := cm\<rparr>) dbtuples w1)))"

subsection \<open>Notions used to state the properties of commit\<close>

text \<open>
  The outside state after the given tuples were locked one after the other, and the
  tuples of a vector that are not yet marked locked, in the order of the vector.
\<close>

definition locks_taken :: "('w, 'k) env \<Rightarrow> dbtuple_ptr list \<Rightarrow> 'w \<Rightarrow> 'w" where
  "locks_taken e ps w = fold (\<lambda>p w'. snd (lock e p True w')) ps w"

definition unlocked_ptrs :: "(dbtuple_ptr \<times> 'k dbtuple_info) list \<Rightarrow> dbtuple_ptr list" where
  "unlocked_ptrs ds = map fst (filter (\<lambda>d. \<not> locked (snd d)) ds)"

definition mark_locked :: "dbtuple_ptr \<times> 'k dbtuple_info \<Rightarrow> dbtuple_ptr \<times> 'k dbtuple_info" where
  "mark_locked d = (fst d, (snd d)\<lparr>locked := True\<rparr>)"

text \<open>
  A tuple passes the check of the lock phase in a given outside state: the version
  word that \<open>lock\<close> returns agrees with \<open>is_latest\<close> (the \<open>INVARIANT\<close>), has DELETING
  clear and LATEST set, and the tuple's tid is readable. The checks of a vector pass
  when every tuple of it that is not yet marked locked passes in the outside state
  reached by locking the unlocked tuples before it.
\<close>

definition lock_passes :: "('w, 'k) env \<Rightarrow> dbtuple_ptr \<Rightarrow> 'w \<Rightarrow> bool" where
  "lock_passes e p w =
     (case lock e p True w of
        (v, w1) \<Rightarrow> IsLatest e v = is_latest e p w1 \<and> \<not> IsDeleting e v \<and> IsLatest e v \<and>
                   can_read_tid e (version e p w1) w1)"

definition lock_checks_pass ::
  "('w, 'k) env \<Rightarrow> (dbtuple_ptr \<times> 'k dbtuple_info) list \<Rightarrow> 'w \<Rightarrow> bool" where
  "lock_checks_pass e ds w =
     (\<forall>i < length ds. \<not> locked (snd (ds ! i)) \<longrightarrow>
        lock_passes e (fst (ds ! i)) (locks_taken e (unlocked_ptrs (take i ds)) w))"

text \<open>
  The read-set check as the spec words it: the tuple is still the latest version at
  the observed tid, by the lock-protected predicate when \<open>holds_lock\<close> is set and by the
  stable predicate otherwise.
\<close>

definition read_entry_valid :: "('w, 'k) env \<Rightarrow> dbtuple_ptr \<times> read_record_t \<Rightarrow> 'w \<Rightarrow> bool" where
  "read_entry_valid e x w =
     (if holds_lock (snd x) then is_latest_version e (fst x) (t (snd x)) w
      else stable_is_latest_version e (fst x) (t (snd x)) w)"

text \<open>
  The absent-set check as the spec words it: an entry of kind INSERT passes; for kind
  WRITE the saved tuple must hold a nil latest value; for kind READ the key is
  searched again, a miss passes and a hit must show a nil latest value by the stable
  predicate.
\<close>

definition absent_entry_ok ::
  "('w, 'k) env \<Rightarrow> btree_ptr \<Rightarrow> 'k \<times> absent_record_t \<Rightarrow> 'w \<Rightarrow> bool" where
  "absent_entry_ok e bt x w =
     (case type (snd x) of
        ABSENT_REC_INSERT \<Rightarrow> True
      | ABSENT_REC_WRITE \<Rightarrow>
          (case tuple (snd x) of None \<Rightarrow> False | Some tup \<Rightarrow> latest_value_is_nil e tup w)
      | ABSENT_REC_READ \<Rightarrow>
          (case search e bt (fst x) w of
             None \<Rightarrow> True
           | Some tup \<Rightarrow> stable_latest_value_is_nil e tup w))"

text \<open>
  What the two \<open>INVARIANT\<close>s of the absent-set check demand of an entry: kind WRITE
  comes with its tuple, kind READ with none.
\<close>

definition absent_entry_wf :: "'k \<times> absent_record_t \<Rightarrow> bool" where
  "absent_entry_wf x =
     (case type (snd x) of
        ABSENT_REC_INSERT \<Rightarrow> True
      | ABSENT_REC_WRITE \<Rightarrow> tuple (snd x) \<noteq> None
      | ABSENT_REC_READ \<Rightarrow> tuple (snd x) = None)"

text \<open>
  \<open>commit\<close> aborted with a reason: it threw the abort exception with that reason or
  returned false, as \<open>doThrow\<close> says, and left the transaction in \<open>TXN_ABRT\<close> with the
  reason stored.
\<close>

definition aborted_with ::
  "bool \<Rightarrow> abort_reason \<Rightarrow> (commit_result \<times> 'k transaction \<times> 'w) option \<Rightarrow> bool" where
  "aborted_with doThrow rsn res =
     (case res of
        None \<Rightarrow> False
      | Some (result, txn', w') \<Rightarrow>
          result = (if doThrow then Thrown (transaction_abort_exception rsn) else Returned False) \<and>
          state txn' = TXN_ABRT \<and> reason txn' = rsn)"

subsection \<open>A small instance\<close>

text \<open>
  An instance of the collaborators on which the model can be evaluated. The outside
  state is the list of the tuples locked so far. One index holds key 1 at tuple 10;
  every insert of another key lands in leaf node 7, which reports version 3; fresh
  tuples are allocated at address 20 with value \<open>x\<close>; tuple 11 is not the latest
  version; every tuple carries tid 5 and no tuple is a tombstone.
\<close>

definition example_env :: "(dbtuple_ptr list, nat) env" where
  "example_env =
     \<lparr>consistent_snapshot_tid = (\<lambda>w. (False, 0)),
      can_read_tid = (\<lambda>tid w. True),
      gen_commit_tid = (\<lambda>ds w. (100, w)),
      on_tid_finish = (\<lambda>tid w. w),
      on_dbtuple_spill = (\<lambda>bt k p w. w),
      on_logical_delete = (\<lambda>bt k p w. w),
      search = (\<lambda>bt k w. if k = 1 then Some 10 else None),
      insert_if_absent = (\<lambda>bt k p w. (if k = 1 then None else Some (Some 7, 3), w)),
      btree_insert = (\<lambda>bt k p w. ((False, Some 10), w)),
      search_range_failed = (\<lambda>bt ctx rng w. False),
      ExtractVersionNumber = (\<lambda>node w. 4),
      is_mostly_append = (\<lambda>bt. False),
      alloc_first = (\<lambda>overwrite bytes w. (20, w)),
      release_no_rcu = (\<lambda>p w. w),
      lock = (\<lambda>p write w. (if p = 11 then 0 else 1, w @ [p])),
      unlock = (\<lambda>p w. w),
      is_latest = (\<lambda>p w. p \<noteq> 11),
      IsLatest = (\<lambda>v. v \<noteq> 0),
      IsDeleting = (\<lambda>v. False),
      version = (\<lambda>p w. 5),
      set_version = (\<lambda>p tid w. w),
      tuple_size = (\<lambda>p w. 1),
      get_value_start = (\<lambda>p w. ''x''),
      mark_modifying = (\<lambda>p w. w),
      is_latest_version = (\<lambda>p tid w. tid = 5),
      stable_is_latest_version = (\<lambda>p tid w. tid = 5),
      latest_value_is_nil = (\<lambda>p w. False),
      stable_latest_value_is_nil = (\<lambda>p w. False),
      write_record_at = (\<lambda>p tid bytes w. ((False, None), w))\<rparr>"

text \<open>A context that has read nothing and writes the given keys.\<close>

definition example_ctx :: "(nat \<times> write_record_t) list \<Rightarrow> nat txn_context" where
  "example_ctx ws =
     \<lparr>read_set = [], absent_set = [], write_set = ws, node_scan = [], absent_range_set = []\<rparr>"

definition example_info :: "nat \<Rightarrow> bool \<Rightarrow> nat dbtuple_info" where
  "example_info k lk = \<lparr>btr = 0, key = k, insert_i = False, r_i = ''x'', locked = lk\<rparr>"

section \<open>The invariant of the absent-range set\<close>

text \<open>
  A range holds no key when its upper bound is present and does not lie above its
  lower bound: the empty ranges of the spec (\<open>lo == hi\<close>) and the ranges whose bounds
  are the wrong way round. A range is ordered when its upper bound, if present, does
  not lie below its lower bound; an ordered range holds no key only if it is empty.
\<close>

definition no_key_range :: "'k::linorder key_range_t \<Rightarrow> bool" where
  "no_key_range x = (has_b x \<and> b x \<le> a x)"









section \<open>Properties of the absent-range set\<close>




lemma no_key_range_iff: "no_key_range x \<longleftrightarrow> (\<forall>k. \<not> key_in_range x k)"
  unfolding no_key_range_def key_in_range_def by (auto simp: not_le not_less)




































section \<open>Properties of abort and commit\<close>

text \<open>
  Claim C9. \<open>abort_impl\<close> on a transaction that is already aborted returns and
  changes nothing, so the state and the stored reason stay as they were; on a
  committed transaction it throws \<open>transaction_unusable_exception\<close>; on a transaction
  in \<open>TXN_EMBRYO\<close> or \<open>TXN_ACTIVE\<close> it sets the state to \<open>TXN_ABRT\<close> and stores the
  reason it was given.
\<close>

theorem abort_impl_cases:
  "(state txn = TXN_ABRT \<longrightarrow> abort_impl txn rsn = Inr txn) \<and>
   (state txn = TXN_COMMITED \<longrightarrow> abort_impl txn rsn = Inl transaction_unusable_exception) \<and>
   (state txn = TXN_EMBRYO \<or> state txn = TXN_ACTIVE \<longrightarrow>
      abort_impl txn rsn = Inr (txn\<lparr>state := TXN_ABRT, reason := rsn\<rparr>))"
  by (simp add: abort_impl_def clear_def)

theorem abort_impl_cases_witness:
  "abort_impl \<lparr>state = TXN_ACTIVE, reason = ABORT_REASON_USER, flags = 0, ctx_map = ([] :: (nat \<times> nat txn_context) list)\<rparr>
      ABORT_REASON_READ_NODE_INTEREFERENCE =
     Inr \<lparr>state = TXN_ABRT, reason = ABORT_REASON_READ_NODE_INTEREFERENCE, flags = 0, ctx_map = []\<rparr> \<and>
   abort_impl \<lparr>state = TXN_ABRT, reason = ABORT_REASON_USER, flags = 0, ctx_map = ([] :: (nat \<times> nat txn_context) list)\<rparr>
      ABORT_REASON_READ_NODE_INTEREFERENCE =
     Inr \<lparr>state = TXN_ABRT, reason = ABORT_REASON_USER, flags = 0, ctx_map = []\<rparr> \<and>
   abort_impl \<lparr>state = TXN_COMMITED, reason = ABORT_REASON_USER, flags = 0, ctx_map = ([] :: (nat \<times> nat txn_context) list)\<rparr>
      ABORT_REASON_READ_NODE_INTEREFERENCE =
     Inl transaction_unusable_exception"
  using
    abort_impl_cases[of "\<lparr>state = TXN_ACTIVE, reason = ABORT_REASON_USER, flags = 0, ctx_map = ([] :: (nat \<times> nat txn_context) list)\<rparr>" ABORT_REASON_READ_NODE_INTEREFERENCE]
    abort_impl_cases[of "\<lparr>state = TXN_ABRT, reason = ABORT_REASON_USER, flags = 0, ctx_map = ([] :: (nat \<times> nat txn_context) list)\<rparr>" ABORT_REASON_READ_NODE_INTEREFERENCE]
    abort_impl_cases[of "\<lparr>state = TXN_COMMITED, reason = ABORT_REASON_USER, flags = 0, ctx_map = ([] :: (nat \<times> nat txn_context) list)\<rparr>" ABORT_REASON_READ_NODE_INTEREFERENCE]
  by simp

text \<open>
  Claim C8. \<open>commit\<close> on a committed transaction returns true whatever \<open>doThrow\<close> is;
  on an aborted transaction it returns false when \<open>doThrow\<close> is false and throws the
  abort exception with the stored reason when \<open>doThrow\<close> is true. In both cases the
  transaction and the outside state are unchanged.
\<close>

theorem commit_terminal:
  "(state txn = TXN_COMMITED \<longrightarrow> commit e doThrow txn w = Some (Returned True, txn, w)) \<and>
   (state txn = TXN_ABRT \<longrightarrow>
      commit e False txn w = Some (Returned False, txn, w) \<and>
      commit e True txn w = Some (Thrown (transaction_abort_exception (reason txn)), txn, w))"
  by (simp add: commit_def)

theorem commit_terminal_witness:
  "commit example_env True
     \<lparr>state = TXN_COMMITED, reason = ABORT_REASON_USER, flags = 0, ctx_map = []\<rparr> [] =
     Some (Returned True,
           \<lparr>state = TXN_COMMITED, reason = ABORT_REASON_USER, flags = 0, ctx_map = []\<rparr>, []) \<and>
   commit example_env True
     \<lparr>state = TXN_ABRT, reason = ABORT_REASON_READ_NODE_INTEREFERENCE, flags = 0, ctx_map = []\<rparr> [] =
     Some (Thrown (transaction_abort_exception ABORT_REASON_READ_NODE_INTEREFERENCE),
           \<lparr>state = TXN_ABRT, reason = ABORT_REASON_READ_NODE_INTEREFERENCE, flags = 0, ctx_map = []\<rparr>, [])"
  using
    commit_terminal[of "\<lparr>state = TXN_COMMITED, reason = ABORT_REASON_USER, flags = 0, ctx_map = []\<rparr>"
      example_env True "[]"]
    commit_terminal[of "\<lparr>state = TXN_ABRT, reason = ABORT_REASON_READ_NODE_INTEREFERENCE, flags = 0, ctx_map = []\<rparr>"
      example_env True "[]"]
  by simp

lemmas example_simps =
  example_env_def example_ctx_def find_write_node.simps write_found_def write_inserted_def
  update_node_scan_def mark_read_set_def mark_absent_set_def
  TXN_FLAG_LOW_LEVEL_SCAN_def TXN_FLAG_READ_ONLY_def

lemma find_write_node_insert_path:
  assumes "try_insert_path \<or> search e bt k w = None"
    and "alloc_first e (\<not> is_mostly_append e bt) (r writerec) w = (tup, w1)"
    and "is_latest e tup w1"
    and "lock e tup True w1 = (v0, w2)"
    and "insert_if_absent e bt k tup w2 = (Some insert_info, w3)"
  shows "find_write_node e flgs bt k writerec try_insert_path (ctx, dbtuples, w) =
           Some (write_inserted flgs bt k writerec tup insert_info (ctx, dbtuples, w3))"
  using assms by (subst find_write_node.simps) auto

lemma mark_locked_id: "locked info \<Longrightarrow> mark_locked (p, info) = (p, info)"
  by (simp add: mark_locked_def)

lemma locks_taken_Cons: "locks_taken e (p # ps) w = locks_taken e ps (snd (lock e p True w))"
  by (simp add: locks_taken_def)

lemma locks_taken_append:
  "locks_taken e (ps @ qs) w = locks_taken e qs (locks_taken e ps w)"
  by (simp add: locks_taken_def)

lemma lock_write_nodes_Continue:
  "lock_write_nodes e ds w = Continue (ds', w') \<Longrightarrow>
     ds' = map mark_locked ds \<and> w' = locks_taken e (unlocked_ptrs ds) w"
proof (induction ds arbitrary: w ds' w')
  case Nil
  then show ?case by (simp add: locks_taken_def unlocked_ptrs_def)
next
  case (Cons d ds)
  obtain p info where d: "d = (p, info)" by (cases d)
  show ?case
  proof (cases "locked info")
    case True
    with Cons.prems d obtain ds1 where
      r: "lock_write_nodes e ds w = Continue (ds1, w')" and ds': "ds' = (p, info) # ds1"
      by (auto split: step.splits)
    from Cons.IH[OF r] ds' True d show ?thesis
      by (simp add: mark_locked_id unlocked_ptrs_def)
  next
    case False
    obtain v w1 where l: "lock e p True w = (v, w1)" by (cases "lock e p True w")
    with Cons.prems d False obtain ds1 where
      r: "lock_write_nodes e ds w1 = Continue (ds1, w')"
      and ds': "ds' = (p, info\<lparr>locked := True\<rparr>) # ds1"
      by (auto split: step.splits if_splits)
    from Cons.IH[OF r] ds' False d l show ?thesis
      by (simp add: mark_locked_def unlocked_ptrs_def locks_taken_Cons)
  qed
qed

lemma lock_write_nodes_append:
  assumes "lock_write_nodes e pre w = Continue (pre', w0)"
  shows "lock_write_nodes e (pre @ rest) w =
           (case lock_write_nodes e rest w0 of
              Continue (ds', w') \<Rightarrow> Continue (pre' @ ds', w')
            | Abort rsn (ds', w') \<Rightarrow> Abort rsn (pre' @ ds', w')
            | Fault (ds', w') \<Rightarrow> Fault (pre' @ ds', w'))"
  using assms
proof (induction pre arbitrary: w pre')
  case Nil
  then show ?case by (auto split: step.splits)
next
  case (Cons d pre)
  obtain p info where d: "d = (p, info)" by (cases d)
  show ?case
  proof (cases "locked info")
    case True
    with Cons.prems d obtain ds1 where
      r: "lock_write_nodes e pre w = Continue (ds1, w0)" and pre': "pre' = (p, info) # ds1"
      by (auto split: step.splits)
    from Cons.IH[OF r] pre' True d show ?thesis
      by (auto split: step.splits)
  next
    case False
    obtain v w1 where l: "lock e p True w = (v, w1)" by (cases "lock e p True w")
    with Cons.prems d False obtain ds1 where
      r: "lock_write_nodes e pre w1 = Continue (ds1, w0)"
      and pre': "pre' = (p, info\<lparr>locked := True\<rparr>) # ds1"
      and ok: "IsLatest e v = is_latest e p w1"
        "\<not> (IsDeleting e v \<or> \<not> IsLatest e v \<or> \<not> can_read_tid e (version e p w1) w1)"
      by (auto split: step.splits if_splits)
    from Cons.IH[OF r] pre' False d l ok show ?thesis
      by (auto split: step.splits)
  qed
qed

lemma lock_write_nodes_Abort:
  "lock_write_nodes e ds w = Abort rsn (ds', w') \<Longrightarrow>
     rsn = ABORT_REASON_WRITE_NODE_INTERFERENCE \<and>
     (\<exists>pre p info post v.
        ds = pre @ (p, info) # post \<and> \<not> locked info \<and>
        lock e p True (locks_taken e (unlocked_ptrs pre) w) = (v, w') \<and>
        (IsDeleting e v \<or> \<not> IsLatest e v \<or> \<not> can_read_tid e (version e p w') w') \<and>
        ds' = map mark_locked pre @ (p, info\<lparr>locked := True\<rparr>) # post)"
proof (induction ds arbitrary: w ds')
  case Nil
  then show ?case by simp
next
  case (Cons d ds)
  obtain p info where d: "d = (p, info)" by (cases d)
  show ?case
  proof (cases "locked info")
    case True
    with Cons.prems d obtain ds1 where
      r: "lock_write_nodes e ds w = Abort rsn (ds1, w')" and ds': "ds' = (p, info) # ds1"
      by (auto split: step.splits)
    from Cons.IH[OF r] obtain pre q qi post v where
      rsn: "rsn = ABORT_REASON_WRITE_NODE_INTERFERENCE" and
      1: "ds = pre @ (q, qi) # post" "\<not> locked qi"
        "lock e q True (locks_taken e (unlocked_ptrs pre) w) = (v, w')"
        "IsDeleting e v \<or> \<not> IsLatest e v \<or> \<not> can_read_tid e (version e q w') w'"
        "ds1 = map mark_locked pre @ (q, qi\<lparr>locked := True\<rparr>) # post"
      by blast
    have "d # ds = ((p, info) # pre) @ (q, qi) # post" using 1(1) d by simp
    moreover have "unlocked_ptrs ((p, info) # pre) = unlocked_ptrs pre"
      using True by (simp add: unlocked_ptrs_def)
    moreover have "ds' = map mark_locked ((p, info) # pre) @ (q, qi\<lparr>locked := True\<rparr>) # post"
      using ds' 1(5) True by (simp add: mark_locked_id)
    ultimately show ?thesis using rsn 1(2,3,4) by metis
  next
    case False
    obtain v w1 where l: "lock e p True w = (v, w1)" by (cases "lock e p True w")
    show ?thesis
    proof (cases "IsDeleting e v \<or> \<not> IsLatest e v \<or> \<not> can_read_tid e (version e p w1) w1")
      case bad: True
      with Cons.prems d False l have
        res: "rsn = ABORT_REASON_WRITE_NODE_INTERFERENCE" "ds' = (p, info\<lparr>locked := True\<rparr>) # ds" "w' = w1"
        by (auto split: if_splits)
      have "d # ds = [] @ (p, info) # ds" using d by simp
      moreover have "lock e p True (locks_taken e (unlocked_ptrs []) w) = (v, w')"
        using l res by (simp add: locks_taken_def unlocked_ptrs_def)
      moreover have "ds' = map mark_locked [] @ (p, info\<lparr>locked := True\<rparr>) # ds"
        using res by simp
      ultimately show ?thesis using res(1) False bad res(3) by blast
    next
      case good: False
      with Cons.prems d False l obtain ds1 where
        r: "lock_write_nodes e ds w1 = Abort rsn (ds1, w')"
        and ds': "ds' = (p, info\<lparr>locked := True\<rparr>) # ds1"
        by (auto split: step.splits if_splits)
      from Cons.IH[OF r] obtain pre q qi post v' where
        rsn: "rsn = ABORT_REASON_WRITE_NODE_INTERFERENCE" and
        1: "ds = pre @ (q, qi) # post" "\<not> locked qi"
          "lock e q True (locks_taken e (unlocked_ptrs pre) w1) = (v', w')"
          "IsDeleting e v' \<or> \<not> IsLatest e v' \<or> \<not> can_read_tid e (version e q w') w'"
          "ds1 = map mark_locked pre @ (q, qi\<lparr>locked := True\<rparr>) # post"
        by blast
      have "d # ds = ((p, info) # pre) @ (q, qi) # post" using 1(1) d by simp
      moreover have "locks_taken e (unlocked_ptrs ((p, info) # pre)) w = locks_taken e (unlocked_ptrs pre) w1"
        using False l by (simp add: unlocked_ptrs_def locks_taken_Cons)
      moreover have "ds' = map mark_locked ((p, info) # pre) @ (q, qi\<lparr>locked := True\<rparr>) # post"
        using ds' 1(5) by (simp add: mark_locked_def)
      ultimately show ?thesis using rsn 1(2,3,4) by metis
    qed
  qed
qed

lemma lock_write_nodes_bad_version:
  assumes pre: "lock_write_nodes e pre w = Continue (pre', w0)"
    and nl: "\<not> locked info"
    and l: "lock e p True w0 = (v, w1)"
    and inv: "IsLatest e v = is_latest e p w1"
    and bad: "IsDeleting e v \<or> \<not> IsLatest e v \<or> \<not> can_read_tid e (version e p w1) w1"
  shows "lock_write_nodes e (pre @ (p, info) # post) w =
           Abort ABORT_REASON_WRITE_NODE_INTERFERENCE (pre' @ (p, info\<lparr>locked := True\<rparr>) # post, w1)"
  using nl l inv bad by (simp add: lock_write_nodes_append[OF pre])

lemma commit_after_find_write_nodes:
  assumes "state txn = TXN_EMBRYO \<or> state txn = TXN_ACTIVE"
    and "find_write_nodes e (flags txn) (ctx_map txn) [] [] w = Some (Continue (cm, ds, w1))"
  shows "commit e doThrow txn w =
           Some (commit_phases e doThrow (consistent_snapshot_tid e w) (txn\<lparr>ctx_map := cm\<rparr>) ds w1)"
  using assms by (auto simp: commit_def)

lemma do_abort_aborted:
  "aborted_with doThrow rsn (Some (do_abort e doThrow (txn\<lparr>reason := rsn\<rparr>) ds ct w))"
  by (simp add: aborted_with_def do_abort_def clear_def Let_def)

lemma lock_phase_abort:
  assumes "dbtuples \<noteq> []"
    and "lock_write_nodes e (sort_dbtuples dbtuples) w = Abort rsn (ds', w')"
  shows "lock_phase e dbtuples w = Abort rsn (ds', (False, 0), w')"
  using assms by (simp add: lock_phase_def)

lemma commit_phases_lock_abort:
  assumes "dbtuples \<noteq> []"
    and "lock_write_nodes e (sort_dbtuples dbtuples) w = Abort rsn (ds', w')"
  shows "commit_phases e doThrow snap txn dbtuples w =
           do_abort e doThrow (txn\<lparr>reason := rsn\<rparr>) ds' (False, 0) w'"
  using assms by (simp add: commit_phases_def lock_phase_abort)

lemma unlocked_ptrs_Cons:
  "unlocked_ptrs ((p, info) # ds) = (if locked info then unlocked_ptrs ds else p # unlocked_ptrs ds)"
  by (simp add: unlocked_ptrs_def)

lemma lock_checks_pass_Nil: "lock_checks_pass e [] w"
  by (simp add: lock_checks_pass_def)

lemma lock_checks_pass_Cons:
  "lock_checks_pass e ((p, info) # ds) w \<longleftrightarrow>
     (if locked info then lock_checks_pass e ds w
      else lock_passes e p w \<and> lock_checks_pass e ds (snd (lock e p True w)))"
proof -
  have "lock_checks_pass e ((p, info) # ds) w \<longleftrightarrow>
      (\<not> locked info \<longrightarrow> lock_passes e p w) \<and>
      (\<forall>i < length ds. \<not> locked (snd (ds ! i)) \<longrightarrow>
         lock_passes e (fst (ds ! i))
           (locks_taken e (unlocked_ptrs ((p, info) # take i ds)) w))"
    unfolding lock_checks_pass_def
    by (simp add: All_less_Suc2 locks_taken_def unlocked_ptrs_def)
  then show ?thesis
    by (simp add: lock_checks_pass_def unlocked_ptrs_Cons locks_taken_Cons)
qed

lemma lock_write_nodes_progress:
  "lock_checks_pass e ds w \<Longrightarrow>
     lock_write_nodes e ds w = Continue (map mark_locked ds, locks_taken e (unlocked_ptrs ds) w)"
proof (induction ds arbitrary: w)
  case Nil
  show ?case by (simp add: locks_taken_def unlocked_ptrs_def)
next
  case (Cons d ds)
  obtain p info where d: "d = (p, info)" by (cases d)
  show ?case
  proof (cases "locked info")
    case True
    with Cons.prems d have "lock_checks_pass e ds w" by (simp add: lock_checks_pass_Cons)
    from Cons.IH[OF this] True d show ?thesis
      by (simp add: mark_locked_id unlocked_ptrs_Cons)
  next
    case False
    obtain v w1 where l: "lock e p True w = (v, w1)" by (cases "lock e p True w")
    from Cons.prems d False l have ok: "lock_passes e p w" and rest: "lock_checks_pass e ds w1"
      by (simp_all add: lock_checks_pass_Cons)
    from ok l have good: "IsLatest e v = is_latest e p w1" "\<not> IsDeleting e v" "IsLatest e v"
      "can_read_tid e (version e p w1) w1"
      by (auto simp: lock_passes_def)
    from Cons.IH[OF rest] False d l good show ?thesis
      by (simp add: mark_locked_def unlocked_ptrs_Cons locks_taken_Cons)
  qed
qed

lemma lock_write_nodes_Continue_pass:
  "lock_write_nodes e ds w = Continue (ds', w') \<Longrightarrow> lock_checks_pass e ds w"
proof (induction ds arbitrary: w ds')
  case Nil
  show ?case by (simp add: lock_checks_pass_def)
next
  case (Cons d ds)
  obtain p info where d: "d = (p, info)" by (cases d)
  show ?case
  proof (cases "locked info")
    case True
    with Cons.prems d obtain ds1 where
      r: "lock_write_nodes e ds w = Continue (ds1, w')"
      by (auto split: step.splits)
    from Cons.IH[OF r] True d show ?thesis by (simp add: lock_checks_pass_Cons)
  next
    case False
    obtain v w1 where l: "lock e p True w = (v, w1)" by (cases "lock e p True w")
    with Cons.prems d False obtain ds1 where
      r: "lock_write_nodes e ds w1 = Continue (ds1, w')"
      and ok: "IsLatest e v = is_latest e p w1"
        "\<not> (IsDeleting e v \<or> \<not> IsLatest e v \<or> \<not> can_read_tid e (version e p w1) w1)"
      by (auto split: step.splits if_splits)
    from Cons.IH[OF r] False d l ok show ?thesis
      by (simp add: lock_checks_pass_Cons lock_passes_def)
  qed
qed

lemma lock_write_nodes_stops:
  assumes pre: "lock_checks_pass e pre w"
    and nl: "\<not> locked info"
    and l: "lock e p True (locks_taken e (unlocked_ptrs pre) w) = (v, w1)"
    and inv: "IsLatest e v = is_latest e p w1"
    and bad: "IsDeleting e v \<or> \<not> IsLatest e v \<or> \<not> can_read_tid e (version e p w1) w1"
  shows "lock_write_nodes e (pre @ (p, info) # post) w =
           Abort ABORT_REASON_WRITE_NODE_INTERFERENCE
             (map mark_locked pre @ (p, info\<lparr>locked := True\<rparr>) # post, w1)"
  using lock_write_nodes_progress[OF pre] nl l inv bad by (rule lock_write_nodes_bad_version)

lemma lock_write_nodes_faults:
  assumes pre: "lock_checks_pass e pre w"
    and nl: "\<not> locked info"
    and l: "lock e p True (locks_taken e (unlocked_ptrs pre) w) = (v, w1)"
    and inv: "IsLatest e v \<noteq> is_latest e p w1"
  shows "lock_write_nodes e (pre @ (p, info) # post) w =
           Fault (map mark_locked pre @ (p, info) # post, w1)"
  using nl l inv by (simp add: lock_write_nodes_append[OF lock_write_nodes_progress[OF pre]])

lemma lock_phase_progress:
  assumes "dbtuples \<noteq> []"
    and "lock_write_nodes e (sort_dbtuples dbtuples) w = Continue (ds', w')"
  shows "lock_phase e dbtuples w =
           Continue (ds', (True, fst (gen_commit_tid e ds' w')), snd (gen_commit_tid e ds' w'))"
  using assms by (simp add: lock_phase_def split: prod.splits)

lemma commit_phases_lock_progress:
  assumes "dbtuples \<noteq> []"
    and "lock_write_nodes e (sort_dbtuples dbtuples) w = Continue (ds', w')"
  shows "commit_phases e doThrow snap txn dbtuples w =
           validate_and_write e doThrow txn ds' (True, fst (gen_commit_tid e ds' w'))
             (snd (gen_commit_tid e ds' w'))"
  using assms by (simp add: commit_phases_def lock_phase_progress)

lemma lock_phase_fault:
  assumes "dbtuples \<noteq> []"
    and "lock_write_nodes e (sort_dbtuples dbtuples) w = Fault (ds', w')"
  shows "lock_phase e dbtuples w = Fault (ds', (False, 0), w')"
  using assms by (simp add: lock_phase_def)

text \<open>
  Claim C2. When Phase A produced a non-empty vector of write tuples, the lock phase
  works on that vector sorted by tuple pointer (a permutation of it). When every
  tuple that is not yet marked locked passes the check at its turn, the locking loop
  runs to its end: it has locked exactly the tuples that were not yet marked locked,
  one after the other in the sorted order, every tuple is marked locked, the lock phase
  hands on this vector with the minted commit tid, and \<open>commit\<close> goes on to validation
  with them; the loop runs to its end in no other case. When the tuples before some
  unlocked tuple pass and the version word observed at its lock has DELETING set or
  LATEST clear, or the tuple's tid is not readable (and the word agrees with
  \<open>is_latest\<close>, as the \<open>INVARIANT\<close> demands), the loop stops there, having locked the
  unlocked tuples before it and this one, and the lock phase and \<open>commit\<close> abort with
  \<open>ABORT_REASON_WRITE_NODE_INTERFERENCE\<close>; when the word does not agree with
  \<open>is_latest\<close>, the \<open>INVARIANT\<close> fails. The loop aborts in no other way and with no
  other reason.
\<close>

theorem lock_phase_sorted_order:
  fixes e :: "('w, 'k) env"
  assumes ne: "dbtuples \<noteq> []"
  shows "sorted (map fst (sort_dbtuples dbtuples)) \<and>
     mset (sort_dbtuples dbtuples) = mset dbtuples \<and>
     (lock_checks_pass e (sort_dbtuples dbtuples) w \<longrightarrow>
        lock_write_nodes e (sort_dbtuples dbtuples) w =
          Continue (map mark_locked (sort_dbtuples dbtuples),
                    locks_taken e (unlocked_ptrs (sort_dbtuples dbtuples)) w) \<and>
        lock_phase e dbtuples w =
          Continue (map mark_locked (sort_dbtuples dbtuples),
                    (True, fst (gen_commit_tid e (map mark_locked (sort_dbtuples dbtuples))
                                  (locks_taken e (unlocked_ptrs (sort_dbtuples dbtuples)) w))),
                    snd (gen_commit_tid e (map mark_locked (sort_dbtuples dbtuples))
                           (locks_taken e (unlocked_ptrs (sort_dbtuples dbtuples)) w))) \<and>
        (\<forall>txn doThrow w_start cm.
           (state txn = TXN_EMBRYO \<or> state txn = TXN_ACTIVE) \<and>
           find_write_nodes e (flags txn) (ctx_map txn) [] [] w_start =
             Some (Continue (cm, dbtuples, w)) \<longrightarrow>
           commit e doThrow txn w_start =
             Some (validate_and_write e doThrow (txn\<lparr>ctx_map := cm\<rparr>)
                     (map mark_locked (sort_dbtuples dbtuples))
                     (True, fst (gen_commit_tid e (map mark_locked (sort_dbtuples dbtuples))
                                   (locks_taken e (unlocked_ptrs (sort_dbtuples dbtuples)) w)))
                     (snd (gen_commit_tid e (map mark_locked (sort_dbtuples dbtuples))
                            (locks_taken e (unlocked_ptrs (sort_dbtuples dbtuples)) w)))))) \<and>
     (\<forall>ds' w'. lock_write_nodes e (sort_dbtuples dbtuples) w = Continue (ds', w') \<longrightarrow>
        lock_checks_pass e (sort_dbtuples dbtuples) w \<and>
        ds' = map mark_locked (sort_dbtuples dbtuples) \<and>
        w' = locks_taken e (unlocked_ptrs (sort_dbtuples dbtuples)) w) \<and>
     (\<forall>pre p info post v w1.
        sort_dbtuples dbtuples = pre @ (p, info) # post \<and> \<not> locked info \<and>
        lock_checks_pass e pre w \<and>
        lock e p True (locks_taken e (unlocked_ptrs pre) w) = (v, w1) \<and>
        IsLatest e v = is_latest e p w1 \<and>
        (IsDeleting e v \<or> \<not> IsLatest e v \<or> \<not> can_read_tid e (version e p w1) w1) \<longrightarrow>
        lock_write_nodes e (sort_dbtuples dbtuples) w =
          Abort ABORT_REASON_WRITE_NODE_INTERFERENCE
            (map mark_locked pre @ (p, info\<lparr>locked := True\<rparr>) # post, w1) \<and>
        lock_phase e dbtuples w =
          Abort ABORT_REASON_WRITE_NODE_INTERFERENCE
            (map mark_locked pre @ (p, info\<lparr>locked := True\<rparr>) # post, (False, 0), w1) \<and>
        (\<forall>txn doThrow w_start cm.
           (state txn = TXN_EMBRYO \<or> state txn = TXN_ACTIVE) \<and>
           find_write_nodes e (flags txn) (ctx_map txn) [] [] w_start =
             Some (Continue (cm, dbtuples, w)) \<longrightarrow>
           commit e doThrow txn w_start =
             Some (do_abort e doThrow
                     (txn\<lparr>ctx_map := cm, reason := ABORT_REASON_WRITE_NODE_INTERFERENCE\<rparr>)
                     (map mark_locked pre @ (p, info\<lparr>locked := True\<rparr>) # post) (False, 0) w1) \<and>
           aborted_with doThrow ABORT_REASON_WRITE_NODE_INTERFERENCE (commit e doThrow txn w_start))) \<and>
     (\<forall>pre p info post v w1.
        sort_dbtuples dbtuples = pre @ (p, info) # post \<and> \<not> locked info \<and>
        lock_checks_pass e pre w \<and>
        lock e p True (locks_taken e (unlocked_ptrs pre) w) = (v, w1) \<and>
        IsLatest e v \<noteq> is_latest e p w1 \<longrightarrow>
        lock_write_nodes e (sort_dbtuples dbtuples) w =
          Fault (map mark_locked pre @ (p, info) # post, w1) \<and>
        lock_phase e dbtuples w =
          Fault (map mark_locked pre @ (p, info) # post, (False, 0), w1)) \<and>
     (\<forall>rsn ds' w'. lock_write_nodes e (sort_dbtuples dbtuples) w = Abort rsn (ds', w') \<longrightarrow>
        rsn = ABORT_REASON_WRITE_NODE_INTERFERENCE \<and>
        (\<exists>pre p info post v.
           sort_dbtuples dbtuples = pre @ (p, info) # post \<and> \<not> locked info \<and>
           lock e p True (locks_taken e (unlocked_ptrs pre) w) = (v, w') \<and>
           (IsDeleting e v \<or> \<not> IsLatest e v \<or> \<not> can_read_tid e (version e p w') w') \<and>
           ds' = map mark_locked pre @ (p, info\<lparr>locked := True\<rparr>) # post))"
proof (intro conjI allI impI)
  show "sorted (map fst (sort_dbtuples dbtuples))"
    by (simp add: sort_dbtuples_def)
  show "mset (sort_dbtuples dbtuples) = mset dbtuples"
    by (simp add: sort_dbtuples_def)
next
  assume pass: "lock_checks_pass e (sort_dbtuples dbtuples) w"
  show c: "lock_write_nodes e (sort_dbtuples dbtuples) w =
          Continue (map mark_locked (sort_dbtuples dbtuples),
                    locks_taken e (unlocked_ptrs (sort_dbtuples dbtuples)) w)"
    using pass by (rule lock_write_nodes_progress)
  show "lock_phase e dbtuples w =
          Continue (map mark_locked (sort_dbtuples dbtuples),
                    (True, fst (gen_commit_tid e (map mark_locked (sort_dbtuples dbtuples))
                                  (locks_taken e (unlocked_ptrs (sort_dbtuples dbtuples)) w))),
                    snd (gen_commit_tid e (map mark_locked (sort_dbtuples dbtuples))
                           (locks_taken e (unlocked_ptrs (sort_dbtuples dbtuples)) w)))"
    using ne c by (rule lock_phase_progress)
  fix txn :: "'k transaction" and doThrow w_start cm
  assume h: "(state txn = TXN_EMBRYO \<or> state txn = TXN_ACTIVE) \<and>
           find_write_nodes e (flags txn) (ctx_map txn) [] [] w_start =
             Some (Continue (cm, dbtuples, w))"
  have "commit e doThrow txn w_start =
      Some (commit_phases e doThrow (consistent_snapshot_tid e w_start) (txn\<lparr>ctx_map := cm\<rparr>) dbtuples w)"
  proof (rule commit_after_find_write_nodes)
    show "state txn = TXN_EMBRYO \<or> state txn = TXN_ACTIVE" using h by simp
    show "find_write_nodes e (flags txn) (ctx_map txn) [] [] w_start =
             Some (Continue (cm, dbtuples, w))" using h by simp
  qed
  then show "commit e doThrow txn w_start =
             Some (validate_and_write e doThrow (txn\<lparr>ctx_map := cm\<rparr>)
                     (map mark_locked (sort_dbtuples dbtuples))
                     (True, fst (gen_commit_tid e (map mark_locked (sort_dbtuples dbtuples))
                                   (locks_taken e (unlocked_ptrs (sort_dbtuples dbtuples)) w)))
                     (snd (gen_commit_tid e (map mark_locked (sort_dbtuples dbtuples))
                            (locks_taken e (unlocked_ptrs (sort_dbtuples dbtuples)) w))))"
    by (simp only: commit_phases_lock_progress[OF ne c])
next
  fix ds' w'
  assume c: "lock_write_nodes e (sort_dbtuples dbtuples) w = Continue (ds', w')"
  from c show "lock_checks_pass e (sort_dbtuples dbtuples) w"
    by (rule lock_write_nodes_Continue_pass)
  from lock_write_nodes_Continue[OF c] show "ds' = map mark_locked (sort_dbtuples dbtuples)"
    by (rule conjunct1)
  from lock_write_nodes_Continue[OF c]
  show "w' = locks_taken e (unlocked_ptrs (sort_dbtuples dbtuples)) w"
    by (rule conjunct2)
next
  fix pre p info post v w1
  assume h: "sort_dbtuples dbtuples = pre @ (p, info) # post \<and> \<not> locked info \<and>
        lock_checks_pass e pre w \<and>
        lock e p True (locks_taken e (unlocked_ptrs pre) w) = (v, w1) \<and>
        IsLatest e v = is_latest e p w1 \<and>
        (IsDeleting e v \<or> \<not> IsLatest e v \<or> \<not> can_read_tid e (version e p w1) w1)"
  have "lock_write_nodes e (pre @ (p, info) # post) w =
          Abort ABORT_REASON_WRITE_NODE_INTERFERENCE
            (map mark_locked pre @ (p, info\<lparr>locked := True\<rparr>) # post, w1)"
  proof (rule lock_write_nodes_stops)
    show "lock_checks_pass e pre w" using h by simp
    show "\<not> locked info" using h by simp
    show "lock e p True (locks_taken e (unlocked_ptrs pre) w) = (v, w1)" using h by simp
    show "IsLatest e v = is_latest e p w1" using h by simp
    show "IsDeleting e v \<or> \<not> IsLatest e v \<or> \<not> can_read_tid e (version e p w1) w1"
      using h by simp
  qed
  with h show ab: "lock_write_nodes e (sort_dbtuples dbtuples) w =
          Abort ABORT_REASON_WRITE_NODE_INTERFERENCE
            (map mark_locked pre @ (p, info\<lparr>locked := True\<rparr>) # post, w1)"
    by simp
  show "lock_phase e dbtuples w =
          Abort ABORT_REASON_WRITE_NODE_INTERFERENCE
            (map mark_locked pre @ (p, info\<lparr>locked := True\<rparr>) # post, (False, 0), w1)"
    using ne ab by (rule lock_phase_abort)
  fix txn :: "'k transaction" and doThrow w_start cm
  assume c: "(state txn = TXN_EMBRYO \<or> state txn = TXN_ACTIVE) \<and>
           find_write_nodes e (flags txn) (ctx_map txn) [] [] w_start =
             Some (Continue (cm, dbtuples, w))"
  have "commit e doThrow txn w_start =
      Some (commit_phases e doThrow (consistent_snapshot_tid e w_start) (txn\<lparr>ctx_map := cm\<rparr>) dbtuples w)"
  proof (rule commit_after_find_write_nodes)
    show "state txn = TXN_EMBRYO \<or> state txn = TXN_ACTIVE" using c by simp
    show "find_write_nodes e (flags txn) (ctx_map txn) [] [] w_start =
             Some (Continue (cm, dbtuples, w))" using c by simp
  qed
  also have "commit_phases e doThrow (consistent_snapshot_tid e w_start) (txn\<lparr>ctx_map := cm\<rparr>) dbtuples w =
      do_abort e doThrow (txn\<lparr>ctx_map := cm\<rparr>\<lparr>reason := ABORT_REASON_WRITE_NODE_INTERFERENCE\<rparr>)
        (map mark_locked pre @ (p, info\<lparr>locked := True\<rparr>) # post) (False, 0) w1"
    by (rule commit_phases_lock_abort[OF ne ab])
  finally have cv: "commit e doThrow txn w_start =
      Some (do_abort e doThrow (txn\<lparr>ctx_map := cm\<rparr>\<lparr>reason := ABORT_REASON_WRITE_NODE_INTERFERENCE\<rparr>)
        (map mark_locked pre @ (p, info\<lparr>locked := True\<rparr>) # post) (False, 0) w1)" .
  then show "commit e doThrow txn w_start =
             Some (do_abort e doThrow
                     (txn\<lparr>ctx_map := cm, reason := ABORT_REASON_WRITE_NODE_INTERFERENCE\<rparr>)
                     (map mark_locked pre @ (p, info\<lparr>locked := True\<rparr>) # post) (False, 0) w1)"
    by simp
  from cv show "aborted_with doThrow ABORT_REASON_WRITE_NODE_INTERFERENCE (commit e doThrow txn w_start)"
    by (simp add: do_abort_aborted)
next
  fix pre p info post v w1
  assume h: "sort_dbtuples dbtuples = pre @ (p, info) # post \<and> \<not> locked info \<and>
        lock_checks_pass e pre w \<and>
        lock e p True (locks_taken e (unlocked_ptrs pre) w) = (v, w1) \<and>
        IsLatest e v \<noteq> is_latest e p w1"
  have "lock_write_nodes e (pre @ (p, info) # post) w =
          Fault (map mark_locked pre @ (p, info) # post, w1)"
  proof (rule lock_write_nodes_faults)
    show "lock_checks_pass e pre w" using h by simp
    show "\<not> locked info" using h by simp
    show "lock e p True (locks_taken e (unlocked_ptrs pre) w) = (v, w1)" using h by simp
    show "IsLatest e v \<noteq> is_latest e p w1" using h by simp
  qed
  with h show f: "lock_write_nodes e (sort_dbtuples dbtuples) w =
          Fault (map mark_locked pre @ (p, info) # post, w1)"
    by simp
  show "lock_phase e dbtuples w =
          Fault (map mark_locked pre @ (p, info) # post, (False, 0), w1)"
    using ne f by (rule lock_phase_fault)
next
  fix rsn ds' w'
  assume ab: "lock_write_nodes e (sort_dbtuples dbtuples) w = Abort rsn (ds', w')"
  from lock_write_nodes_Abort[OF ab] show "rsn = ABORT_REASON_WRITE_NODE_INTERFERENCE"
    by (rule conjunct1)
  from lock_write_nodes_Abort[OF ab]
  show "\<exists>pre p info post v.
           sort_dbtuples dbtuples = pre @ (p, info) # post \<and> \<not> locked info \<and>
           lock e p True (locks_taken e (unlocked_ptrs pre) w) = (v, w') \<and>
           (IsDeleting e v \<or> \<not> IsLatest e v \<or> \<not> can_read_tid e (version e p w') w') \<and>
           ds' = map mark_locked pre @ (p, info\<lparr>locked := True\<rparr>) # post"
    by (rule conjunct2)
qed

theorem lock_phase_sorted_order_witness:
  "lock_write_nodes example_env (sort_dbtuples
     [(12, example_info 1 False), (10, example_info 2 False), (9, example_info 3 True)]) [] =
     Continue ([(9, example_info 3 True), (10, example_info 2 True), (12, example_info 1 True)],
               [10, 12]) \<and>
   commit (example_env\<lparr>search := (\<lambda>bt k w. Some (30 - k))\<rparr>) False
     \<lparr>state = TXN_ACTIVE, reason = ABORT_REASON_USER, flags = 0,
      ctx_map = [(0, example_ctx [(1, \<lparr>r = ''x'', insert_w = False\<rparr>),
                                  (2, \<lparr>r = ''x'', insert_w = False\<rparr>)])]\<rparr> [] =
     Some (Returned True,
           \<lparr>state = TXN_COMMITED, reason = ABORT_REASON_USER, flags = 0,
            ctx_map = [(0, example_ctx [(1, \<lparr>r = ''x'', insert_w = False\<rparr>),
                                        (2, \<lparr>r = ''x'', insert_w = False\<rparr>)])]\<rparr>,
           [28, 29]) \<and>
   lock_write_nodes example_env (sort_dbtuples
     [(12, example_info 1 False), (11, example_info 2 False), (9, example_info 3 True)]) [] =
     Abort ABORT_REASON_WRITE_NODE_INTERFERENCE
       ([(9, example_info 3 True), (11, example_info 2 True), (12, example_info 1 False)], [11])"
proof -
  let ?dsA = "[(12, example_info 1 False), (10, example_info 2 False), (9, example_info 3 True)]"
  let ?dsB = "[(12, example_info 1 False), (11, example_info 2 False), (9, example_info 3 True)]"
  let ?e2 = "example_env\<lparr>search := (\<lambda>bt k w. Some (30 - k))\<rparr>"
  let ?wr = "\<lparr>r = ''x'', insert_w = False\<rparr>"
  let ?ctx = "example_ctx [(1 :: nat, ?wr), (2, ?wr)]"
  let ?txn = "\<lparr>state = TXN_ACTIVE, reason = ABORT_REASON_USER, flags = 0, ctx_map = [(0, ?ctx)]\<rparr>"
  let ?dsC = "[(29, \<lparr>btr = 0, key = 1 :: nat, insert_i = False, r_i = ''x'', locked = False\<rparr>),
               (28, \<lparr>btr = 0, key = 2, insert_i = False, r_i = ''x'', locked = False\<rparr>)]"
  have neA: "?dsA \<noteq> []" and neB: "?dsB \<noteq> []" and neC: "?dsC \<noteq> []" by simp_all
  note thA = lock_phase_sorted_order[OF neA, of example_env "[]"]
  note thB = lock_phase_sorted_order[OF neB, of example_env "[]"]
  note thC = lock_phase_sorted_order[OF neC, of ?e2 "[]"]
  have sA: "sort_dbtuples ?dsA =
      [(9, example_info 3 True), (10, example_info 2 False), (12, example_info 1 False)]"
    by (simp add: sort_dbtuples_def)
  have passA: "lock_checks_pass example_env (sort_dbtuples ?dsA) []"
    unfolding sA
    by (simp add: lock_checks_pass_Cons lock_checks_pass_Nil lock_passes_def example_info_def
        example_env_def)
  from thA passA have "lock_write_nodes example_env (sort_dbtuples ?dsA) [] =
      Continue (map mark_locked (sort_dbtuples ?dsA),
                locks_taken example_env (unlocked_ptrs (sort_dbtuples ?dsA)) [])"
    by blast
  then have first: "lock_write_nodes example_env (sort_dbtuples ?dsA) [] =
     Continue ([(9, example_info 3 True), (10, example_info 2 True), (12, example_info 1 True)],
               [10, 12])"
    unfolding sA
    by (simp add: mark_locked_def locks_taken_def unlocked_ptrs_def example_info_def example_env_def)
  have sC: "sort_dbtuples ?dsC =
      [(28, \<lparr>btr = 0, key = 2, insert_i = False, r_i = ''x'', locked = False\<rparr>),
       (29, \<lparr>btr = 0, key = 1, insert_i = False, r_i = ''x'', locked = False\<rparr>)]"
    by (simp add: sort_dbtuples_def)
  have passC: "lock_checks_pass ?e2 (sort_dbtuples ?dsC) []"
    unfolding sC
    by (simp add: lock_checks_pass_Cons lock_checks_pass_Nil lock_passes_def example_env_def)
  have phaseA: "(state ?txn = TXN_EMBRYO \<or> state ?txn = TXN_ACTIVE) \<and>
      find_write_nodes ?e2 (flags ?txn) (ctx_map ?txn) [] [] [] = Some (Continue ([(0, ?ctx)], ?dsC, []))"
    by (simp add: example_simps)
  note stepC = thC[THEN conjunct2, THEN conjunct2, THEN conjunct1, THEN mp, OF passC,
      THEN conjunct2, THEN conjunct2, THEN spec, THEN spec, THEN spec, THEN spec, THEN mp,
      OF phaseA]
  from stepC[of False] have "commit ?e2 False ?txn [] =
             Some (validate_and_write ?e2 False (?txn\<lparr>ctx_map := [(0, ?ctx)]\<rparr>)
                     (map mark_locked (sort_dbtuples ?dsC))
                     (True, fst (gen_commit_tid ?e2 (map mark_locked (sort_dbtuples ?dsC))
                                   (locks_taken ?e2 (unlocked_ptrs (sort_dbtuples ?dsC)) [])))
                     (snd (gen_commit_tid ?e2 (map mark_locked (sort_dbtuples ?dsC))
                            (locks_taken ?e2 (unlocked_ptrs (sort_dbtuples ?dsC)) []))))" .
  then have second: "commit ?e2 False ?txn [] =
     Some (Returned True,
           \<lparr>state = TXN_COMMITED, reason = ABORT_REASON_USER, flags = 0, ctx_map = [(0, ?ctx)]\<rparr>,
           [28, 29])"
    unfolding sC
    by (simp add: validate_and_write_def validate_context_def write_record_def finish_commit_def
        clear_def mark_locked_def locks_taken_def unlocked_ptrs_def example_simps)
  have sB: "sort_dbtuples ?dsB =
      [(9, example_info 3 True)] @ (11, example_info 2 False) # [(12, example_info 1 False)]"
    by (simp add: sort_dbtuples_def)
  have hB: "sort_dbtuples ?dsB =
        [(9, example_info 3 True)] @ (11, example_info 2 False) # [(12, example_info 1 False)] \<and>
      \<not> locked (example_info 2 False) \<and>
      lock_checks_pass example_env [(9, example_info 3 True)] [] \<and>
      lock example_env 11 True (locks_taken example_env (unlocked_ptrs [(9, example_info 3 True)]) []) =
        (0, [11]) \<and>
      IsLatest example_env 0 = is_latest example_env 11 [11] \<and>
      (IsDeleting example_env 0 \<or> \<not> IsLatest example_env 0 \<or>
         \<not> can_read_tid example_env (version example_env 11 [11]) [11])"
    unfolding sB
    by (simp add: lock_checks_pass_Cons lock_checks_pass_Nil locks_taken_def unlocked_ptrs_def
        example_info_def example_env_def)
  from thB have "\<forall>pre p info post v w1.
        sort_dbtuples ?dsB = pre @ (p, info) # post \<and> \<not> locked info \<and>
        lock_checks_pass example_env pre [] \<and>
        lock example_env p True (locks_taken example_env (unlocked_ptrs pre) []) = (v, w1) \<and>
        IsLatest example_env v = is_latest example_env p w1 \<and>
        (IsDeleting example_env v \<or> \<not> IsLatest example_env v \<or>
           \<not> can_read_tid example_env (version example_env p w1) w1) \<longrightarrow>
        lock_write_nodes example_env (sort_dbtuples ?dsB) [] =
          Abort ABORT_REASON_WRITE_NODE_INTERFERENCE
            (map mark_locked pre @ (p, info\<lparr>locked := True\<rparr>) # post, w1)"
    by blast
  with hB have "lock_write_nodes example_env (sort_dbtuples ?dsB) [] =
          Abort ABORT_REASON_WRITE_NODE_INTERFERENCE
            (map mark_locked [(9, example_info 3 True)] @
               (11, (example_info 2 False)\<lparr>locked := True\<rparr>) # [(12, example_info 1 False)], [11])"
    by blast
  then have third: "lock_write_nodes example_env (sort_dbtuples ?dsB) [] =
     Abort ABORT_REASON_WRITE_NODE_INTERFERENCE
       ([(9, example_info 3 True), (11, example_info 2 True), (12, example_info 1 False)], [11])"
    by (simp add: mark_locked_def example_info_def)
  from first second third show ?thesis by simp
qed

lemma validate_read_set_eq:
  "validate_read_set e rs w =
     (if \<forall>x \<in> set rs. read_entry_valid e x w then Continue ()
      else Abort ABORT_REASON_READ_NODE_INTEREFERENCE ())"
proof (induction rs)
  case Nil
  show ?case by simp
next
  case (Cons x rs)
  obtain tup rec where x: "x = (tup, rec)" by (cases x)
  have v: "read_entry_valid e (tup, rec) w =
      (if holds_lock rec then is_latest_version e tup (t rec) w
       else stable_is_latest_version e tup (t rec) w)"
    by (simp add: read_entry_valid_def)
  show ?case
  proof (cases "read_entry_valid e (tup, rec) w")
    case True
    with v have "validate_read_set e ((tup, rec) # rs) w = validate_read_set e rs w" by simp
    with Cons.IH True x show ?thesis by simp
  next
    case False
    with v have "validate_read_set e ((tup, rec) # rs) w = Abort ABORT_REASON_READ_NODE_INTEREFERENCE ()"
      by simp
    with False x show ?thesis by simp
  qed
qed

lemma validate_absent_set_eq:
  assumes "\<forall>x \<in> set as. absent_entry_wf x"
  shows "validate_absent_set e bt as w =
     (if \<forall>x \<in> set as. absent_entry_ok e bt x w then Continue ()
      else Abort ABORT_REASON_READ_ABSENCE_INTEREFERENCE ())"
  using assms
proof (induction as)
  case Nil
  show ?case by simp
next
  case (Cons x as)
  obtain k rec where x: "x = (k, rec)" by (cases x)
  from Cons.prems have wf: "absent_entry_wf (k, rec)" and rest: "\<forall>y \<in> set as. absent_entry_wf y"
    using x by simp_all
  note ih = Cons.IH[OF rest]
  show ?case
  proof (cases "type rec")
    case ABSENT_REC_READ
    with wf ih x show ?thesis
      by (auto simp: absent_entry_wf_def absent_entry_ok_def split: option.splits)
  next
    case ABSENT_REC_WRITE
    with wf ih x show ?thesis
      by (auto simp: absent_entry_wf_def absent_entry_ok_def split: option.splits)
  next
    case ABSENT_REC_INSERT
    with wf ih x show ?thesis
      by (auto simp: absent_entry_wf_def absent_entry_ok_def split: option.splits)
  qed
qed

lemma validate_absent_set_reasons:
  "validate_absent_set e bt as w = Abort rsn u \<Longrightarrow> rsn = ABORT_REASON_READ_ABSENCE_INTEREFERENCE"
  by (induction as) (auto split: if_splits option.splits)

lemma validate_node_scan_reasons:
  "validate_node_scan e ns w = Abort rsn u \<Longrightarrow> rsn = ABORT_REASON_NODE_SCAN_READ_VERSION_CHANGED"
  by (induction ns) (auto split: if_splits)

lemma validate_absent_ranges_reasons:
  "validate_absent_ranges e bt ctx rs w = Abort rsn u \<Longrightarrow> rsn = ABORT_REASON_WRITE_NODE_INTERFERENCE"
  by (induction rs) (auto split: if_splits)

lemma validate_context_read_abort:
  "validate_context e flgs c w = Abort ABORT_REASON_READ_NODE_INTEREFERENCE () \<longleftrightarrow>
     (\<exists>x \<in> set (read_set (snd c)). \<not> read_entry_valid e x w)"
proof -
  obtain bt ctx where c: "c = (bt, ctx)" by (cases c)
  show ?thesis
  proof (cases "\<forall>x \<in> set (read_set ctx). read_entry_valid e x w")
    case True
    then have r: "validate_read_set e (read_set ctx) w = Continue ()"
      by (simp add: validate_read_set_eq)
    have "validate_context e flgs (bt, ctx) w \<noteq> Abort ABORT_REASON_READ_NODE_INTEREFERENCE ()"
      using r validate_absent_set_reasons[of e bt "absent_set ctx" w ABORT_REASON_READ_NODE_INTEREFERENCE "()"]
        validate_node_scan_reasons[of e "node_scan ctx" w ABORT_REASON_READ_NODE_INTEREFERENCE "()"]
        validate_absent_ranges_reasons[of e bt ctx "absent_range_set ctx" w ABORT_REASON_READ_NODE_INTEREFERENCE "()"]
      by (auto simp: validate_context_def split: step.splits if_splits)
    with True c show ?thesis by simp
  next
    case False
    then have r: "validate_read_set e (read_set ctx) w = Abort ABORT_REASON_READ_NODE_INTEREFERENCE ()"
      and ne: "read_set ctx \<noteq> []"
      by (auto simp: validate_read_set_eq)
    then have "validate_context e flgs (bt, ctx) w = Abort ABORT_REASON_READ_NODE_INTEREFERENCE ()"
      by (simp add: validate_context_def)
    with False c show ?thesis by simp
  qed
qed

lemma validate_context_absent_abort:
  assumes wf: "\<forall>x \<in> set (absent_set (snd c)). absent_entry_wf x"
  shows "validate_context e flgs c w = Abort ABORT_REASON_READ_ABSENCE_INTEREFERENCE () \<longleftrightarrow>
     (\<forall>x \<in> set (read_set (snd c)). read_entry_valid e x w) \<and>
     (\<exists>x \<in> set (absent_set (snd c)). \<not> absent_entry_ok e (fst c) x w)"
proof -
  obtain bt ctx where c: "c = (bt, ctx)" by (cases c)
  from wf c have wf': "\<forall>x \<in> set (absent_set ctx). absent_entry_wf x" by simp
  show ?thesis
  proof (cases "\<forall>x \<in> set (read_set ctx). read_entry_valid e x w")
    case False
    then have r: "validate_read_set e (read_set ctx) w = Abort ABORT_REASON_READ_NODE_INTEREFERENCE ()"
      and ne: "read_set ctx \<noteq> []"
      by (auto simp: validate_read_set_eq)
    then have "validate_context e flgs (bt, ctx) w = Abort ABORT_REASON_READ_NODE_INTEREFERENCE ()"
      by (simp add: validate_context_def)
    with False c show ?thesis by simp
  next
    case True
    then have r: "validate_read_set e (read_set ctx) w = Continue ()"
      by (simp add: validate_read_set_eq)
    show ?thesis
    proof (cases "\<forall>x \<in> set (absent_set ctx). absent_entry_ok e bt x w")
      case ok: True
      then have a: "validate_absent_set e bt (absent_set ctx) w = Continue ()"
        by (simp add: validate_absent_set_eq[OF wf'])
      have "validate_context e flgs (bt, ctx) w \<noteq> Abort ABORT_REASON_READ_ABSENCE_INTEREFERENCE ()"
        using r a
          validate_node_scan_reasons[of e "node_scan ctx" w ABORT_REASON_READ_ABSENCE_INTEREFERENCE "()"]
          validate_absent_ranges_reasons[of e bt ctx "absent_range_set ctx" w ABORT_REASON_READ_ABSENCE_INTEREFERENCE "()"]
        by (auto simp: validate_context_def split: step.splits if_splits)
      with ok c show ?thesis by simp
    next
      case bad: False
      then have a: "validate_absent_set e bt (absent_set ctx) w =
          Abort ABORT_REASON_READ_ABSENCE_INTEREFERENCE ()"
        and ne: "absent_set ctx \<noteq> []"
        by (auto simp: validate_absent_set_eq[OF wf'])
      then have "validate_context e flgs (bt, ctx) w = Abort ABORT_REASON_READ_ABSENCE_INTEREFERENCE ()"
        using r by (simp add: validate_context_def)
      with True bad c show ?thesis by simp
    qed
  qed
qed

lemma read_validation_abort_iff:
  "read_validation e flgs cm w = Abort rsn () \<longleftrightarrow>
     (\<exists>pre c post. cm = pre @ c # post \<and>
        (\<forall>c' \<in> set pre. validate_context e flgs c' w = Continue ()) \<and>
        validate_context e flgs c w = Abort rsn ())"
proof (induction cm)
  case Nil
  show ?case by simp
next
  case (Cons c cm)
  show ?case
  proof (cases "validate_context e flgs c w")
    case (Continue u)
    have "(\<exists>pre c' post. c # cm = pre @ c' # post \<and>
        (\<forall>x \<in> set pre. validate_context e flgs x w = Continue ()) \<and>
        validate_context e flgs c' w = Abort rsn ()) \<longleftrightarrow>
      (\<exists>pre c' post. cm = pre @ c' # post \<and>
        (\<forall>x \<in> set pre. validate_context e flgs x w = Continue ()) \<and>
        validate_context e flgs c' w = Abort rsn ())" (is "?L \<longleftrightarrow> ?R")
    proof
      assume ?L
      then obtain pre c' post where h: "c # cm = pre @ c' # post"
        "\<forall>x \<in> set pre. validate_context e flgs x w = Continue ()"
        "validate_context e flgs c' w = Abort rsn ()" by blast
      show ?R
      proof (cases pre)
        case Nil
        with h Continue show ?thesis by simp
      next
        case (Cons p pre')
        with h have "cm = pre' @ c' # post" "\<forall>x \<in> set pre'. validate_context e flgs x w = Continue ()"
          by simp_all
        with h(3) show ?thesis by blast
      qed
    next
      assume ?R
      then obtain pre c' post where h: "cm = pre @ c' # post"
        "\<forall>x \<in> set pre. validate_context e flgs x w = Continue ()"
        "validate_context e flgs c' w = Abort rsn ()" by blast
      have "c # cm = (c # pre) @ c' # post" using h(1) by simp
      moreover have "\<forall>x \<in> set (c # pre). validate_context e flgs x w = Continue ()"
        using h(2) Continue by simp
      ultimately show ?L using h(3) by blast
    qed
    with Cons.IH Continue show ?thesis by simp
  next
    case (Abort rsn' u)
    have "(\<exists>pre c' post. c # cm = pre @ c' # post \<and>
        (\<forall>x \<in> set pre. validate_context e flgs x w = Continue ()) \<and>
        validate_context e flgs c' w = Abort rsn ()) \<longleftrightarrow> rsn' = rsn" (is "?L \<longleftrightarrow> _")
    proof
      assume ?L
      then obtain pre c' post where h: "c # cm = pre @ c' # post"
        "\<forall>x \<in> set pre. validate_context e flgs x w = Continue ()"
        "validate_context e flgs c' w = Abort rsn ()" by blast
      show "rsn' = rsn"
      proof (cases pre)
        case Nil
        with h Abort show ?thesis by simp
      next
        case (Cons p pre')
        with h Abort show ?thesis by simp
      qed
    next
      assume "rsn' = rsn"
      with Abort have "c # cm = [] @ c # cm \<and> (\<forall>x \<in> set []. validate_context e flgs x w = Continue ()) \<and>
        validate_context e flgs c w = Abort rsn ()" by simp
      then show ?L by blast
    qed
    with Abort show ?thesis by simp
  next
    case (Fault u)
    have "\<not> (\<exists>pre c' post. c # cm = pre @ c' # post \<and>
        (\<forall>x \<in> set pre. validate_context e flgs x w = Continue ()) \<and>
        validate_context e flgs c' w = Abort rsn ())"
    proof
      assume "\<exists>pre c' post. c # cm = pre @ c' # post \<and>
        (\<forall>x \<in> set pre. validate_context e flgs x w = Continue ()) \<and>
        validate_context e flgs c' w = Abort rsn ()"
      then obtain pre c' post where h: "c # cm = pre @ c' # post"
        "\<forall>x \<in> set pre. validate_context e flgs x w = Continue ()"
        "validate_context e flgs c' w = Abort rsn ()" by blast
      show False
      proof (cases pre)
        case Nil
        with h Fault show ?thesis by simp
      next
        case (Cons p pre')
        with h Fault show ?thesis by simp
      qed
    qed
    with Fault show ?thesis by simp
  qed
qed

lemma write_record_no_abort: "write_record e tid p info w \<noteq> Abort rsn w'"
  by (auto simp: write_record_def Let_def split: prod.splits option.splits)

lemma write_records_no_abort: "write_records e tid ds w \<noteq> Abort rsn w'"
proof (induction ds arbitrary: w)
  case Nil
  show ?case by simp
next
  case (Cons d ds)
  obtain p info where d: "d = (p, info)" by (cases d)
  show ?case unfolding d using Cons.IH write_record_no_abort[of e tid p info w]
    by (auto simp: Let_def split: step.splits)
qed

lemma commit_phases_validation:
  assumes gate: "\<not> fst snap \<or> ds \<noteq> []"
    and B: "lock_phase e ds w = Continue (ds', ct, w')"
  shows "aborted_with doThrow rsn (Some (commit_phases e doThrow snap txn ds w)) \<longleftrightarrow>
         read_validation e (flags txn) (ctx_map txn) w' = Abort rsn ()"
proof (cases "read_validation e (flags txn) (ctx_map txn) w'")
  case (Abort rsn' u)
  then have "commit_phases e doThrow snap txn ds w = do_abort e doThrow (txn\<lparr>reason := rsn'\<rparr>) ds' ct w'"
    using gate B by (auto simp: commit_phases_def validate_and_write_def)
  then show ?thesis using Abort
    by (auto simp: aborted_with_def do_abort_def clear_def Let_def)
next
  case (Fault u)
  then have "commit_phases e doThrow snap txn ds w = (Thrown invariant_failure, txn, w')"
    using gate B by (auto simp: commit_phases_def validate_and_write_def)
  then show ?thesis using Fault by (simp add: aborted_with_def)
next
  case (Continue u)
  show ?thesis
  proof (cases "if ds' \<noteq> [] then write_records e (snd ct) ds' w' else Continue w'")
    case c2: (Continue w2)
    then have "commit_phases e doThrow snap txn ds w = finish_commit e txn ct w2"
      using gate B Continue by (auto simp: commit_phases_def validate_and_write_def)
    then show ?thesis using Continue by (simp add: aborted_with_def finish_commit_def clear_def)
  next
    case (Abort rsn' w2)
    then show ?thesis using write_records_no_abort[of e "snd ct" ds' w' rsn' w2]
      by (auto split: if_splits)
  next
    case f2: (Fault w2)
    then have "commit_phases e doThrow snap txn ds w = (Thrown invariant_failure, txn, w2)"
      using gate B Continue by (auto simp: commit_phases_def validate_and_write_def)
    then show ?thesis using Continue by (simp add: aborted_with_def)
  qed
qed

text \<open>
  Claim C3. In the validation phase (after Phases A and B went through), the read-set
  check of a context passes exactly when every entry \<open>(tuple, t)\<close> is still the latest
  version at tid \<open>t\<close>, tested with \<open>is_latest_version\<close> when the entry's \<open>holds_lock\<close> is
  set and with \<open>stable_is_latest_version\<close> otherwise, and fails with
  \<open>ABORT_REASON_READ_NODE_INTEREFERENCE\<close> otherwise. \<open>commit\<close> aborts with that reason
  exactly when, in the first context whose validation does not pass, some read-set
  entry fails this test.
\<close>

theorem read_set_validation:
  fixes e :: "('w, 'k) env" and txn :: "'k transaction"
  assumes st: "state txn = TXN_EMBRYO \<or> state txn = TXN_ACTIVE"
    and A: "find_write_nodes e (flags txn) (ctx_map txn) [] [] w = Some (Continue (cm, ds, w1))"
    and gate: "\<not> fst (consistent_snapshot_tid e w) \<or> ds \<noteq> []"
    and B: "lock_phase e ds w1 = Continue (ds', ct, w2)"
  shows "(\<forall>c \<in> set cm.
            validate_read_set e (read_set (snd c)) w2 =
              (if \<forall>x \<in> set (read_set (snd c)). read_entry_valid e x w2 then Continue ()
               else Abort ABORT_REASON_READ_NODE_INTEREFERENCE ())) \<and>
         (aborted_with doThrow ABORT_REASON_READ_NODE_INTEREFERENCE (commit e doThrow txn w) \<longleftrightarrow>
            (\<exists>pre c post. cm = pre @ c # post \<and>
               (\<forall>c' \<in> set pre. validate_context e (flags txn) c' w2 = Continue ()) \<and>
               (\<exists>x \<in> set (read_set (snd c)). \<not> read_entry_valid e x w2)))"
proof
  show "\<forall>c \<in> set cm.
            validate_read_set e (read_set (snd c)) w2 =
              (if \<forall>x \<in> set (read_set (snd c)). read_entry_valid e x w2 then Continue ()
               else Abort ABORT_REASON_READ_NODE_INTEREFERENCE ())"
    by (simp add: validate_read_set_eq)
  have c: "commit e doThrow txn w =
      Some (commit_phases e doThrow (consistent_snapshot_tid e w) (txn\<lparr>ctx_map := cm\<rparr>) ds w1)"
    using st A by (rule commit_after_find_write_nodes)
  have "aborted_with doThrow ABORT_REASON_READ_NODE_INTEREFERENCE (commit e doThrow txn w) \<longleftrightarrow>
      read_validation e (flags txn) cm w2 = Abort ABORT_REASON_READ_NODE_INTEREFERENCE ()"
    unfolding c using commit_phases_validation[OF gate B, of doThrow _ "txn\<lparr>ctx_map := cm\<rparr>"]
    by simp
  then show "aborted_with doThrow ABORT_REASON_READ_NODE_INTEREFERENCE (commit e doThrow txn w) \<longleftrightarrow>
            (\<exists>pre c post. cm = pre @ c # post \<and>
               (\<forall>c' \<in> set pre. validate_context e (flags txn) c' w2 = Continue ()) \<and>
               (\<exists>x \<in> set (read_set (snd c)). \<not> read_entry_valid e x w2))"
    by (simp add: read_validation_abort_iff validate_context_read_abort)
qed

text \<open>
  Claim C4. In the validation phase (after Phases A and B went through), with every
  absent-set entry of kind WRITE carrying its tuple and every entry of kind READ
  carrying none, the absent-set check of a context passes exactly when every entry is
  in order: kind INSERT is skipped; for kind WRITE the saved tuple has a nil latest
  value by \<open>latest_value_is_nil\<close>; for kind READ the key is searched again, and it is
  missing or the tuple found has a nil latest value by \<open>stable_latest_value_is_nil\<close>.
  Otherwise the check fails with \<open>ABORT_REASON_READ_ABSENCE_INTEREFERENCE\<close>. \<open>commit\<close>
  aborts with that reason exactly when, in the first context whose validation does not
  pass, the read set is valid and some absent-set entry is not in order.
\<close>

theorem absent_set_validation:
  fixes e :: "('w, 'k) env" and txn :: "'k transaction"
  assumes st: "state txn = TXN_EMBRYO \<or> state txn = TXN_ACTIVE"
    and A: "find_write_nodes e (flags txn) (ctx_map txn) [] [] w = Some (Continue (cm, ds, w1))"
    and gate: "\<not> fst (consistent_snapshot_tid e w) \<or> ds \<noteq> []"
    and B: "lock_phase e ds w1 = Continue (ds', ct, w2)"
    and wf: "\<forall>c \<in> set cm. \<forall>x \<in> set (absent_set (snd c)). absent_entry_wf x"
  shows "(\<forall>c \<in> set cm.
            validate_absent_set e (fst c) (absent_set (snd c)) w2 =
              (if \<forall>x \<in> set (absent_set (snd c)). absent_entry_ok e (fst c) x w2 then Continue ()
               else Abort ABORT_REASON_READ_ABSENCE_INTEREFERENCE ())) \<and>
         (aborted_with doThrow ABORT_REASON_READ_ABSENCE_INTEREFERENCE (commit e doThrow txn w) \<longleftrightarrow>
            (\<exists>pre c post. cm = pre @ c # post \<and>
               (\<forall>c' \<in> set pre. validate_context e (flags txn) c' w2 = Continue ()) \<and>
               (\<forall>x \<in> set (read_set (snd c)). read_entry_valid e x w2) \<and>
               (\<exists>x \<in> set (absent_set (snd c)). \<not> absent_entry_ok e (fst c) x w2)))"
proof
  show "\<forall>c \<in> set cm.
            validate_absent_set e (fst c) (absent_set (snd c)) w2 =
              (if \<forall>x \<in> set (absent_set (snd c)). absent_entry_ok e (fst c) x w2 then Continue ()
               else Abort ABORT_REASON_READ_ABSENCE_INTEREFERENCE ())"
  proof
    fix c assume "c \<in> set cm"
    with wf have "\<forall>x \<in> set (absent_set (snd c)). absent_entry_wf x" by simp
    then show "validate_absent_set e (fst c) (absent_set (snd c)) w2 =
              (if \<forall>x \<in> set (absent_set (snd c)). absent_entry_ok e (fst c) x w2 then Continue ()
               else Abort ABORT_REASON_READ_ABSENCE_INTEREFERENCE ())"
      by (rule validate_absent_set_eq)
  qed
  have c: "commit e doThrow txn w =
      Some (commit_phases e doThrow (consistent_snapshot_tid e w) (txn\<lparr>ctx_map := cm\<rparr>) ds w1)"
    using st A by (rule commit_after_find_write_nodes)
  have 1: "aborted_with doThrow ABORT_REASON_READ_ABSENCE_INTEREFERENCE (commit e doThrow txn w) \<longleftrightarrow>
      read_validation e (flags txn) cm w2 = Abort ABORT_REASON_READ_ABSENCE_INTEREFERENCE ()"
    unfolding c using commit_phases_validation[OF gate B, of doThrow _ "txn\<lparr>ctx_map := cm\<rparr>"]
    by simp
  have 2: "validate_context e (flags txn) c w2 = Abort ABORT_REASON_READ_ABSENCE_INTEREFERENCE () \<longleftrightarrow>
     (\<forall>x \<in> set (read_set (snd c)). read_entry_valid e x w2) \<and>
     (\<exists>x \<in> set (absent_set (snd c)). \<not> absent_entry_ok e (fst c) x w2)"
    if "c \<in> set cm" for c
  proof (rule validate_context_absent_abort)
    show "\<forall>x \<in> set (absent_set (snd c)). absent_entry_wf x" using wf that by simp
  qed
  have "read_validation e (flags txn) cm w2 = Abort ABORT_REASON_READ_ABSENCE_INTEREFERENCE () \<longleftrightarrow>
      (\<exists>pre c post. cm = pre @ c # post \<and>
               (\<forall>c' \<in> set pre. validate_context e (flags txn) c' w2 = Continue ()) \<and>
               (\<forall>x \<in> set (read_set (snd c)). read_entry_valid e x w2) \<and>
               (\<exists>x \<in> set (absent_set (snd c)). \<not> absent_entry_ok e (fst c) x w2))" (is "?L \<longleftrightarrow> ?R")
  proof
    assume ?L
    then obtain pre c post where h: "cm = pre @ c # post"
      "\<forall>c' \<in> set pre. validate_context e (flags txn) c' w2 = Continue ()"
      "validate_context e (flags txn) c w2 = Abort ABORT_REASON_READ_ABSENCE_INTEREFERENCE ()"
      unfolding read_validation_abort_iff by blast
    from h(1) have "c \<in> set cm" by simp
    from 2[OF this] h show ?R by blast
  next
    assume ?R
    then obtain pre c post where h: "cm = pre @ c # post"
      "\<forall>c' \<in> set pre. validate_context e (flags txn) c' w2 = Continue ()"
      "(\<forall>x \<in> set (read_set (snd c)). read_entry_valid e x w2) \<and>
       (\<exists>x \<in> set (absent_set (snd c)). \<not> absent_entry_ok e (fst c) x w2)"
      by blast
    from h(1) have "c \<in> set cm" by simp
    from 2[OF this] h(3)
    have "validate_context e (flags txn) c w2 = Abort ABORT_REASON_READ_ABSENCE_INTEREFERENCE ()"
      by blast
    with h(1,2) show ?L unfolding read_validation_abort_iff by blast
  qed
  with 1 show "aborted_with doThrow ABORT_REASON_READ_ABSENCE_INTEREFERENCE (commit e doThrow txn w) \<longleftrightarrow>
            (\<exists>pre c post. cm = pre @ c # post \<and>
               (\<forall>c' \<in> set pre. validate_context e (flags txn) c' w2 = Continue ()) \<and>
               (\<forall>x \<in> set (read_set (snd c)). read_entry_valid e x w2) \<and>
               (\<exists>x \<in> set (absent_set (snd c)). \<not> absent_entry_ok e (fst c) x w2))"
    by simp
qed

theorem read_set_validation_witness:
  "aborted_with False ABORT_REASON_READ_NODE_INTEREFERENCE
     (commit example_env False
        \<lparr>state = TXN_ACTIVE, reason = ABORT_REASON_USER, flags = 0,
         ctx_map = [(0, (example_ctx [(1, \<lparr>r = ''x'', insert_w = False\<rparr>)])
                          \<lparr>read_set := [(10, \<lparr>t = 4, holds_lock = False\<rparr>)]\<rparr>)]\<rparr> [])"
proof -
  let ?ctx = "(example_ctx [(1, \<lparr>r = ''x'', insert_w = False\<rparr>)])
                 \<lparr>read_set := [(10, \<lparr>t = 4, holds_lock = False\<rparr>)]\<rparr>"
  let ?ctx' = "(example_ctx [(1, \<lparr>r = ''x'', insert_w = False\<rparr>)])
                 \<lparr>read_set := [(10, \<lparr>t = 4, holds_lock = True\<rparr>)]\<rparr>"
  let ?txn = "\<lparr>state = TXN_ACTIVE, reason = ABORT_REASON_USER, flags = 0, ctx_map = [(0, ?ctx)]\<rparr>"
  let ?ds = "[(10, \<lparr>btr = 0, key = 1, insert_i = False, r_i = ''x'', locked = False\<rparr>)]"
  let ?ds' = "[(10, \<lparr>btr = 0, key = 1, insert_i = False, r_i = ''x'', locked = True\<rparr>)]"
  have st: "state ?txn = TXN_EMBRYO \<or> state ?txn = TXN_ACTIVE" by simp
  have A: "find_write_nodes example_env (flags ?txn) (ctx_map ?txn) [] [] [] =
      Some (Continue ([(0, ?ctx')], ?ds, []))"
    by (simp add: example_simps)
  have gate: "\<not> fst (consistent_snapshot_tid example_env []) \<or> ?ds \<noteq> []" by simp
  have B: "lock_phase example_env ?ds [] = Continue (?ds', (True, 100), [10])"
    by (simp add: lock_phase_def sort_dbtuples_def example_env_def)
  have bad: "\<exists>pre c post. [(0, ?ctx')] = pre @ c # post \<and>
      (\<forall>c' \<in> set pre. validate_context example_env (flags ?txn) c' [10] = Continue ()) \<and>
      (\<exists>x \<in> set (read_set (snd c)). \<not> read_entry_valid example_env x [10])"
  proof (intro exI conjI)
    show "[(0, ?ctx')] = [] @ (0, ?ctx') # []" by simp
    show "\<forall>c' \<in> set []. validate_context example_env (flags ?txn) c' [10] = Continue ()" by simp
    show "\<exists>x \<in> set (read_set (snd (0, ?ctx'))). \<not> read_entry_valid example_env x [10]"
      by (simp add: read_entry_valid_def example_env_def)
  qed
  from read_set_validation[OF st A gate B, of False] bad show ?thesis by blast
qed

theorem absent_set_validation_witness:
  "aborted_with False ABORT_REASON_READ_ABSENCE_INTEREFERENCE
     (commit example_env False
        \<lparr>state = TXN_ACTIVE, reason = ABORT_REASON_USER, flags = 0,
         ctx_map = [(0, (example_ctx [(2, \<lparr>r = ''x'', insert_w = True\<rparr>)])
                          \<lparr>absent_set := [(1, \<lparr>type = ABSENT_REC_READ, tuple = None\<rparr>)]\<rparr>)]\<rparr> [])"
proof -
  let ?ctx = "(example_ctx [(2, \<lparr>r = ''x'', insert_w = True\<rparr>)])
                 \<lparr>absent_set := [(1, \<lparr>type = ABSENT_REC_READ, tuple = None\<rparr>)]\<rparr>"
  let ?txn = "\<lparr>state = TXN_ACTIVE, reason = ABORT_REASON_USER, flags = 0, ctx_map = [(0, ?ctx)]\<rparr>"
  let ?ds = "[(20, \<lparr>btr = 0, key = 2, insert_i = True, r_i = ''x'', locked = True\<rparr>)]"
  have st: "state ?txn = TXN_EMBRYO \<or> state ?txn = TXN_ACTIVE" by simp
  have A: "find_write_nodes example_env (flags ?txn) (ctx_map ?txn) [] [] [] =
      Some (Continue ([(0, ?ctx)], ?ds, [20]))"
    by (simp add: example_simps)
  have gate: "\<not> fst (consistent_snapshot_tid example_env []) \<or> ?ds \<noteq> []" by simp
  have B: "lock_phase example_env ?ds [20] = Continue (?ds, (True, 100), [20])"
    by (simp add: lock_phase_def sort_dbtuples_def example_env_def)
  have wf: "\<forall>c \<in> set [(0, ?ctx)]. \<forall>x \<in> set (absent_set (snd c)). absent_entry_wf x"
    by (simp add: absent_entry_wf_def)
  have bad: "\<exists>pre c post. [(0, ?ctx)] = pre @ c # post \<and>
      (\<forall>c' \<in> set pre. validate_context example_env (flags ?txn) c' [20] = Continue ()) \<and>
      (\<forall>x \<in> set (read_set (snd c)). read_entry_valid example_env x [20]) \<and>
      (\<exists>x \<in> set (absent_set (snd c)). \<not> absent_entry_ok example_env (fst c) x [20])"
  proof (intro exI conjI)
    show "[(0, ?ctx)] = [] @ (0, ?ctx) # []" by simp
    show "\<forall>c' \<in> set []. validate_context example_env (flags ?txn) c' [20] = Continue ()" by simp
    show "\<forall>x \<in> set (read_set (snd (0, ?ctx))). read_entry_valid example_env x [20]"
      by (simp add: example_ctx_def)
    show "\<exists>x \<in> set (absent_set (snd (0, ?ctx))). \<not> absent_entry_ok example_env (fst (0, ?ctx)) x [20]"
      by (simp add: absent_entry_ok_def example_env_def)
  qed
  from absent_set_validation[OF st A gate B wf, of False] bad show ?thesis by blast
qed

lemma find_write_nodes_ctx_append:
  assumes "find_write_nodes_ctx e flgs bt pre s = Some (Continue s1)"
  shows "find_write_nodes_ctx e flgs bt (pre @ rest) s = find_write_nodes_ctx e flgs bt rest s1"
  using assms
proof (induction pre arbitrary: s)
  case Nil
  then show ?case by simp
next
  case (Cons x pre)
  obtain k writerec where x: "x = (k, writerec)" by (cases x)
  from Cons.prems x obtain s' where
    1: "find_write_node e flgs bt k writerec (insert_w writerec) s = Some (Continue s')"
    and 2: "find_write_nodes_ctx e flgs bt pre s' = Some (Continue s1)"
    by (auto split: option.splits step.splits)
  from Cons.IH[OF 2] 1 x show ?case by simp
qed

lemma find_write_nodes_append:
  assumes "find_write_nodes e flgs pre visited ds w = Some (Continue (visited', ds', w'))"
  shows "find_write_nodes e flgs (pre @ rest) visited ds w =
           find_write_nodes e flgs rest visited' ds' w'"
  using assms
proof (induction pre arbitrary: visited ds w)
  case Nil
  then show ?case by simp
next
  case (Cons c pre)
  obtain bt ctx where c: "c = (bt, ctx)" by (cases c)
  show ?case
  proof (cases "write_set ctx = []")
    case True
    with Cons.prems c have
      "find_write_nodes e flgs pre (visited @ [(bt, ctx)]) ds w = Some (Continue (visited', ds', w'))"
      by simp
    from Cons.IH[OF this] True c show ?thesis by simp
  next
    case False
    with Cons.prems c have ro: "\<not> (flgs AND TXN_FLAG_READ_ONLY \<noteq> 0 \<and> write_set ctx \<noteq> [])"
      by (auto split: if_splits)
    with Cons.prems c False obtain ctx1 ds1 w1 where
      1: "find_write_nodes_ctx e flgs bt (write_set ctx) (ctx, ds, w) = Some (Continue (ctx1, ds1, w1))"
      and 2: "find_write_nodes e flgs pre (visited @ [(bt, ctx1)]) ds1 w1 = Some (Continue (visited', ds', w'))"
      by (auto split: option.splits step.splits if_splits)
    from Cons.IH[OF 2] 1 ro False c show ?thesis by simp
  qed
qed

lemma find_write_node_abort_commit:
  fixes e :: "('w, 'k) env" and txn :: "'k transaction"
  assumes st: "state txn = TXN_EMBRYO \<or> state txn = TXN_ACTIVE"
    and cm: "ctx_map txn = cpre @ (bt, ctx_start) # cpost"
    and ro: "flags txn AND TXN_FLAG_READ_ONLY = 0"
    and pre: "find_write_nodes e (flags txn) cpre [] [] w_start = Some (Continue (visited, ds0, w0))"
    and ws: "write_set ctx_start = wpre @ (k, writerec) # wpost"
    and wpre: "find_write_nodes_ctx e (flags txn) bt wpre (ctx_start, ds0, w0) =
                 Some (Continue (ctx, dbtuples, w))"
    and step: "find_write_node e (flags txn) bt k writerec (insert_w writerec) (ctx, dbtuples, w) =
                 Some (Abort rsn s')"
  shows "aborted_with doThrow rsn (commit e doThrow txn w_start)"
proof -
  obtain ctx' ds' w' where s': "s' = (ctx', ds', w')" by (cases s')
  have "find_write_nodes_ctx e (flags txn) bt (write_set ctx_start) (ctx_start, ds0, w0) =
      Some (Abort rsn (ctx', ds', w'))"
    unfolding ws find_write_nodes_ctx_append[OF wpre] using step s' by simp
  moreover have "write_set ctx_start \<noteq> []" using ws by simp
  ultimately have "find_write_nodes e (flags txn) ((bt, ctx_start) # cpost) visited ds0 w0 =
      Some (Abort rsn (visited @ (bt, ctx') # cpost, ds', w'))"
    using ro by simp
  then have "find_write_nodes e (flags txn) (ctx_map txn) [] [] w_start =
      Some (Abort rsn (visited @ (bt, ctx') # cpost, ds', w'))"
    unfolding cm find_write_nodes_append[OF pre] .
  then have "commit e doThrow txn w_start =
      Some (do_abort e doThrow (txn\<lparr>ctx_map := visited @ (bt, ctx') # cpost, reason := rsn\<rparr>)
              ds' (False, 0) w')"
    using st by (auto simp: commit_def)
  then show ?thesis
    using do_abort_aborted[of doThrow rsn e "txn\<lparr>ctx_map := visited @ (bt, ctx') # cpost\<rparr>" ds' "(False, 0)" w']
    by simp
qed

lemma find_write_node_continue_ctx:
  assumes wpre: "find_write_nodes_ctx e flgs bt wpre s0 = Some (Continue s)"
    and step: "find_write_node e flgs bt k writerec (insert_w writerec) s = Some (Continue s')"
  shows "find_write_nodes_ctx e flgs bt (wpre @ (k, writerec) # wpost) s0 =
           find_write_nodes_ctx e flgs bt wpost s'"
  unfolding find_write_nodes_ctx_append[OF wpre] using step by simp

lemma find_write_nodes_ctx_continue_commit:
  fixes e :: "('w, 'k) env" and txn :: "'k transaction"
  assumes st: "state txn = TXN_EMBRYO \<or> state txn = TXN_ACTIVE"
    and cm: "ctx_map txn = cpre @ (bt, ctx_start) # cpost"
    and ro: "flags txn AND TXN_FLAG_READ_ONLY = 0"
    and pre: "find_write_nodes e (flags txn) cpre [] [] w_start = Some (Continue (visited, ds0, w0))"
    and ws: "write_set ctx_start \<noteq> []"
    and run: "find_write_nodes_ctx e (flags txn) bt (write_set ctx_start) (ctx_start, ds0, w0) =
                Some (Continue (ctx_end, ds_end, w_end))"
    and rest: "find_write_nodes e (flags txn) cpost (visited @ [(bt, ctx_end)]) ds_end w_end =
                 Some (Continue (cmf, ds_fin, w_fin))"
  shows "find_write_nodes e (flags txn) (ctx_map txn) [] [] w_start =
           Some (Continue (cmf, ds_fin, w_fin))"
    and "commit e doThrow txn w_start =
           Some (commit_phases e doThrow (consistent_snapshot_tid e w_start)
                   (txn\<lparr>ctx_map := cmf\<rparr>) ds_fin w_fin)"
proof -
  have "find_write_nodes e (flags txn) ((bt, ctx_start) # cpost) visited ds0 w0 =
      Some (Continue (cmf, ds_fin, w_fin))"
    using ro ws run rest by simp
  then show A: "find_write_nodes e (flags txn) (ctx_map txn) [] [] w_start =
      Some (Continue (cmf, ds_fin, w_fin))"
    unfolding cm find_write_nodes_append[OF pre] .
  show "commit e doThrow txn w_start =
           Some (commit_phases e doThrow (consistent_snapshot_tid e w_start)
                   (txn\<lparr>ctx_map := cmf\<rparr>) ds_fin w_fin)"
    using st A by (rule commit_after_find_write_nodes)
qed

lemma mark_read_set_ok:
  assumes "\<forall>rr. map_of (read_set c) p = Some rr \<longrightarrow> \<not> holds_lock rr"
  shows "\<exists>c1. mark_read_set p c = Some c1 \<and> absent_set c1 = absent_set c"
  using assms by (cases "map_of (read_set c) p") (auto simp: mark_read_set_def)

lemma mark_absent_set_ok:
  assumes "\<forall>ar. map_of (absent_set c) k = Some ar \<longrightarrow> type ar = ABSENT_REC_READ"
  shows "\<exists>c2. mark_absent_set k ty p c = Some c2"
  using assms by (cases "map_of (absent_set c) k") (auto simp: mark_absent_set_def)

text \<open>
  Claim C5. In Phase A under \<open>TXN_FLAG_LOW_LEVEL_SCAN\<close>, when the insert path is taken
  for a key, \<open>insert_if_absent\<close> succeeds and \<open>node_scan\<close> holds version \<open>v\<close> for the leaf
  node that the insert returned: if the version reported by the insert differs from
  \<open>v\<close>, the step aborts with \<open>ABORT_REASON_WRITE_NODE_INTERFERENCE\<close> and leaves the
  context and the vector of write tuples as they were, and a \<open>commit\<close> whose Phase A
  reaches this round of the retry loop for this key aborts with that reason; otherwise
  the step does not abort and the entry of that node becomes \<open>v + 1\<close> (a 64-bit
  increment), all other entries of \<open>node_scan\<close> staying as they are. In this second
  case the step goes through when the two \<open>INVARIANT\<close>s of the marking hold (the read-set
  entry of the new tuple, if any, does not hold the lock yet, and the absent-set entry
  of the key, if any, is of kind READ), and when it goes through, the loop over the
  write set goes on with the incremented entry and the new tuple, so that a Phase A
  that runs to its end hands them on to the rest of \<open>commit\<close>.
\<close>

theorem insert_checks_node_scan:
  fixes e :: "('w, 'k) env"
  assumes lls: "flgs AND TXN_FLAG_LOW_LEVEL_SCAN \<noteq> 0"
    and path: "try_insert_path \<or> search e bt k w = None"
    and alloc: "alloc_first e (\<not> is_mostly_append e bt) (r writerec) w = (tup, w1)"
    and latest: "is_latest e tup w1"
    and lk: "lock e tup True w1 = (v0, w2)"
    and ins: "insert_if_absent e bt k tup w2 = (Some (Some node, ver), w3)"
    and scan: "map_of (node_scan ctx) node = Some v"
  shows "(v \<noteq> ver \<longrightarrow>
            find_write_node e flgs bt k writerec try_insert_path (ctx, dbtuples, w) =
              Some (Abort ABORT_REASON_WRITE_NODE_INTERFERENCE (ctx, dbtuples, w3)) \<and>
            (\<forall>(txn :: 'k transaction) doThrow w_start cpre cpost ctx_start visited ds0 w0 wpre wpost w_k.
               (state txn = TXN_EMBRYO \<or> state txn = TXN_ACTIVE) \<and> flags txn = flgs \<and>
               flgs AND TXN_FLAG_READ_ONLY = 0 \<and>
               ctx_map txn = cpre @ (bt, ctx_start) # cpost \<and>
               find_write_nodes e flgs cpre [] [] w_start = Some (Continue (visited, ds0, w0)) \<and>
               write_set ctx_start = wpre @ (k, writerec) # wpost \<and>
               find_write_nodes_ctx e flgs bt wpre (ctx_start, ds0, w0) =
                 Some (Continue (ctx, dbtuples, w_k)) \<and>
               find_write_node e flgs bt k writerec (insert_w writerec) (ctx, dbtuples, w_k) =
                 find_write_node e flgs bt k writerec try_insert_path (ctx, dbtuples, w) \<longrightarrow>
               aborted_with doThrow ABORT_REASON_WRITE_NODE_INTERFERENCE
                 (commit e doThrow txn w_start))) \<and>
         (v = ver \<longrightarrow>
            (\<exists>ctx' dbtuples'.
               (find_write_node e flgs bt k writerec try_insert_path (ctx, dbtuples, w) =
                  Some (Continue (ctx', dbtuples', w3)) \<or>
                find_write_node e flgs bt k writerec try_insert_path (ctx, dbtuples, w) =
                  Some (Fault (ctx', dbtuples', w3))) \<and>
               node_scan ctx' = AList.update node (v + 1) (node_scan ctx) \<and>
               map_of (node_scan ctx') = (map_of (node_scan ctx))(node \<mapsto> v + 1)) \<and>
            ((\<forall>rr. map_of (read_set ctx) tup = Some rr \<longrightarrow> \<not> holds_lock rr) \<and>
             (\<forall>ar. map_of (absent_set ctx) k = Some ar \<longrightarrow> type ar = ABSENT_REC_READ) \<longrightarrow>
               (\<exists>ctx'. find_write_node e flgs bt k writerec try_insert_path (ctx, dbtuples, w) =
                  Some (Continue (ctx', dbtuples @
                     [(tup, \<lparr>btr = bt, key = k, insert_i = True, r_i = r writerec, locked = True\<rparr>)],
                     w3)))) \<and>
            (\<forall>ctx' dbtuples'.
               find_write_node e flgs bt k writerec try_insert_path (ctx, dbtuples, w) =
                 Some (Continue (ctx', dbtuples', w3)) \<longrightarrow>
               node_scan ctx' = AList.update node (v + 1) (node_scan ctx) \<and>
               dbtuples' = dbtuples @
                 [(tup, \<lparr>btr = bt, key = k, insert_i = True, r_i = r writerec, locked = True\<rparr>)] \<and>
               (\<forall>(txn :: 'k transaction) doThrow w_start cpre cpost ctx_start visited ds0 w0 wpre wpost w_k.
                  (state txn = TXN_EMBRYO \<or> state txn = TXN_ACTIVE) \<and> flags txn = flgs \<and>
                  flgs AND TXN_FLAG_READ_ONLY = 0 \<and>
                  ctx_map txn = cpre @ (bt, ctx_start) # cpost \<and>
                  find_write_nodes e flgs cpre [] [] w_start = Some (Continue (visited, ds0, w0)) \<and>
                  write_set ctx_start = wpre @ (k, writerec) # wpost \<and>
                  find_write_nodes_ctx e flgs bt wpre (ctx_start, ds0, w0) =
                    Some (Continue (ctx, dbtuples, w_k)) \<and>
                  find_write_node e flgs bt k writerec (insert_w writerec) (ctx, dbtuples, w_k) =
                    find_write_node e flgs bt k writerec try_insert_path (ctx, dbtuples, w) \<longrightarrow>
                  find_write_nodes_ctx e flgs bt (write_set ctx_start) (ctx_start, ds0, w0) =
                    find_write_nodes_ctx e flgs bt wpost (ctx', dbtuples', w3) \<and>
                  (\<forall>ctx_end ds_end w_end cm ds_fin w_fin.
                     find_write_nodes_ctx e flgs bt wpost (ctx', dbtuples', w3) =
                       Some (Continue (ctx_end, ds_end, w_end)) \<and>
                     find_write_nodes e flgs cpost (visited @ [(bt, ctx_end)]) ds_end w_end =
                       Some (Continue (cm, ds_fin, w_fin)) \<longrightarrow>
                     find_write_nodes e flgs (ctx_map txn) [] [] w_start =
                       Some (Continue (cm, ds_fin, w_fin)) \<and>
                     commit e doThrow txn w_start =
                       Some (commit_phases e doThrow (consistent_snapshot_tid e w_start)
                               (txn\<lparr>ctx_map := cm\<rparr>) ds_fin w_fin)))))"
    (is "(_ \<longrightarrow> ?AB) \<and> (_ \<longrightarrow> ?I1 \<and> ?I2 \<and> ?I3)")
proof -
  have fw: "find_write_node e flgs bt k writerec try_insert_path (ctx, dbtuples, w) =
      Some (write_inserted flgs bt k writerec tup (Some node, ver) (ctx, dbtuples, w3))"
    using path alloc latest lk ins by (rule find_write_node_insert_path)
  show ?thesis
  proof (cases "v = ver")
    case False
    have "update_node_scan flgs (Some node, ver) ctx = Abort ABORT_REASON_WRITE_NODE_INTERFERENCE ctx"
      using lls scan False by (simp add: update_node_scan_def)
    then have ab: "find_write_node e flgs bt k writerec try_insert_path (ctx, dbtuples, w) =
        Some (Abort ABORT_REASON_WRITE_NODE_INTERFERENCE (ctx, dbtuples, w3))"
      unfolding fw by (simp add: write_inserted_def)
    have "aborted_with doThrow ABORT_REASON_WRITE_NODE_INTERFERENCE (commit e doThrow txn w_start)"
      if h: "(state txn = TXN_EMBRYO \<or> state txn = TXN_ACTIVE) \<and> flags txn = flgs \<and>
               flgs AND TXN_FLAG_READ_ONLY = 0 \<and>
               ctx_map txn = cpre @ (bt, ctx_start) # cpost \<and>
               find_write_nodes e flgs cpre [] [] w_start = Some (Continue (visited, ds0, w0)) \<and>
               write_set ctx_start = wpre @ (k, writerec) # wpost \<and>
               find_write_nodes_ctx e flgs bt wpre (ctx_start, ds0, w0) =
                 Some (Continue (ctx, dbtuples, w_k)) \<and>
               find_write_node e flgs bt k writerec (insert_w writerec) (ctx, dbtuples, w_k) =
                 find_write_node e flgs bt k writerec try_insert_path (ctx, dbtuples, w)"
      for txn :: "'k transaction" and doThrow w_start cpre cpost ctx_start visited ds0 w0 wpre wpost w_k
    proof (rule find_write_node_abort_commit)
      show "state txn = TXN_EMBRYO \<or> state txn = TXN_ACTIVE" using h by simp
      show "ctx_map txn = cpre @ (bt, ctx_start) # cpost" using h by simp
      show "flags txn AND TXN_FLAG_READ_ONLY = 0" using h by simp
      show "find_write_nodes e (flags txn) cpre [] [] w_start = Some (Continue (visited, ds0, w0))"
        using h by simp
      show "write_set ctx_start = wpre @ (k, writerec) # wpost" using h by simp
      show "find_write_nodes_ctx e (flags txn) bt wpre (ctx_start, ds0, w0) =
                 Some (Continue (ctx, dbtuples, w_k))" using h by simp
      show "find_write_node e (flags txn) bt k writerec (insert_w writerec) (ctx, dbtuples, w_k) =
                 Some (Abort ABORT_REASON_WRITE_NODE_INTERFERENCE (ctx, dbtuples, w3))"
        using h ab by simp
    qed
    with ab False show ?thesis by blast
  next
    case True
    define ctx0 where "ctx0 = ctx\<lparr>node_scan := AList.update node (v + 1) (node_scan ctx)\<rparr>"
    define ds1 where "ds1 = dbtuples @
        [(tup, \<lparr>btr = bt, key = k, insert_i = True, r_i = r writerec, locked = True\<rparr>)]"
    have u: "update_node_scan flgs (Some node, ver) ctx = Continue ctx0"
      using lls scan True by (simp add: update_node_scan_def ctx0_def)
    have ns: "node_scan c = AList.update node (v + 1) (node_scan ctx)"
      if "c = ctx0 \<or> mark_read_set tup ctx0 = Some c \<or>
          (\<exists>c1. mark_read_set tup ctx0 = Some c1 \<and> mark_absent_set k ABSENT_REC_INSERT tup c1 = Some c)" for c
      using that
      by (auto simp: ctx0_def mark_read_set_def mark_absent_set_def split: option.splits if_splits)
    have wi: "write_inserted flgs bt k writerec tup (Some node, ver) (ctx, dbtuples, w3) =
        (case mark_read_set tup ctx0 of
           None \<Rightarrow> Fault (ctx0, ds1, w3)
         | Some c1 \<Rightarrow>
             (case mark_absent_set k ABSENT_REC_INSERT tup c1 of
                None \<Rightarrow> Fault (c1, ds1, w3)
              | Some c2 \<Rightarrow> Continue (c2, ds1, w3)))"
      unfolding write_inserted_def ds1_def using u by (simp add: Let_def)
    have A: "\<exists>ctx' dbtuples'.
        (write_inserted flgs bt k writerec tup (Some node, ver) (ctx, dbtuples, w3) = Continue (ctx', dbtuples', w3) \<or>
         write_inserted flgs bt k writerec tup (Some node, ver) (ctx, dbtuples, w3) = Fault (ctx', dbtuples', w3)) \<and>
        node_scan ctx' = AList.update node (v + 1) (node_scan ctx) \<and>
        map_of (node_scan ctx') = (map_of (node_scan ctx))(node \<mapsto> v + 1)"
      unfolding wi using ns by (auto simp: update_conv' split: option.splits)
    have B: "\<exists>ctx'. write_inserted flgs bt k writerec tup (Some node, ver) (ctx, dbtuples, w3) =
        Continue (ctx', ds1, w3)"
      if inv: "(\<forall>rr. map_of (read_set ctx) tup = Some rr \<longrightarrow> \<not> holds_lock rr) \<and>
               (\<forall>ar. map_of (absent_set ctx) k = Some ar \<longrightarrow> type ar = ABSENT_REC_READ)"
    proof -
      have "\<forall>rr. map_of (read_set ctx0) tup = Some rr \<longrightarrow> \<not> holds_lock rr"
        using inv by (simp add: ctx0_def)
      from mark_read_set_ok[OF this] obtain c1 where c1: "mark_read_set tup ctx0 = Some c1"
        and a1: "absent_set c1 = absent_set ctx0"
        by blast
      have "\<forall>ar. map_of (absent_set c1) k = Some ar \<longrightarrow> type ar = ABSENT_REC_READ"
        using inv a1 by (simp add: ctx0_def)
      from mark_absent_set_ok[OF this] obtain c2 where
        c2: "mark_absent_set k ABSENT_REC_INSERT tup c1 = Some c2"
        by blast
      show ?thesis unfolding wi using c1 c2 by simp
    qed
    have C: "node_scan ctx' = AList.update node (v + 1) (node_scan ctx) \<and> dbtuples' = ds1"
      if "write_inserted flgs bt k writerec tup (Some node, ver) (ctx, dbtuples, w3) =
            Continue (ctx', dbtuples', w3)" for ctx' dbtuples'
      using that ns unfolding wi by (auto split: option.splits)
    have D: "find_write_nodes_ctx e flgs bt (write_set ctx_start) (ctx_start, ds0, w0) =
                    find_write_nodes_ctx e flgs bt wpost (ctx', dbtuples', w3) \<and>
                  (\<forall>ctx_end ds_end w_end cm ds_fin w_fin.
                     find_write_nodes_ctx e flgs bt wpost (ctx', dbtuples', w3) =
                       Some (Continue (ctx_end, ds_end, w_end)) \<and>
                     find_write_nodes e flgs cpost (visited @ [(bt, ctx_end)]) ds_end w_end =
                       Some (Continue (cm, ds_fin, w_fin)) \<longrightarrow>
                     find_write_nodes e flgs (ctx_map txn) [] [] w_start =
                       Some (Continue (cm, ds_fin, w_fin)) \<and>
                     commit e doThrow txn w_start =
                       Some (commit_phases e doThrow (consistent_snapshot_tid e w_start)
                               (txn\<lparr>ctx_map := cm\<rparr>) ds_fin w_fin))"
      if step: "find_write_node e flgs bt k writerec try_insert_path (ctx, dbtuples, w) =
                 Some (Continue (ctx', dbtuples', w3))"
        and h: "(state txn = TXN_EMBRYO \<or> state txn = TXN_ACTIVE) \<and> flags txn = flgs \<and>
                  flgs AND TXN_FLAG_READ_ONLY = 0 \<and>
                  ctx_map txn = cpre @ (bt, ctx_start) # cpost \<and>
                  find_write_nodes e flgs cpre [] [] w_start = Some (Continue (visited, ds0, w0)) \<and>
                  write_set ctx_start = wpre @ (k, writerec) # wpost \<and>
                  find_write_nodes_ctx e flgs bt wpre (ctx_start, ds0, w0) =
                    Some (Continue (ctx, dbtuples, w_k)) \<and>
                  find_write_node e flgs bt k writerec (insert_w writerec) (ctx, dbtuples, w_k) =
                    find_write_node e flgs bt k writerec try_insert_path (ctx, dbtuples, w)"
      for ctx' dbtuples' and txn :: "'k transaction"
        and doThrow w_start cpre cpost ctx_start visited ds0 w0 wpre wpost w_k
    proof -
      have wpre: "find_write_nodes_ctx e flgs bt wpre (ctx_start, ds0, w0) =
                    Some (Continue (ctx, dbtuples, w_k))" using h by simp
      have st: "find_write_node e flgs bt k writerec (insert_w writerec) (ctx, dbtuples, w_k) =
                 Some (Continue (ctx', dbtuples', w3))" using h step by simp
      have ws: "write_set ctx_start = wpre @ (k, writerec) # wpost" using h by simp
      have 1: "find_write_nodes_ctx e flgs bt (write_set ctx_start) (ctx_start, ds0, w0) =
                    find_write_nodes_ctx e flgs bt wpost (ctx', dbtuples', w3)"
        unfolding ws using wpre st by (rule find_write_node_continue_ctx)
      have fl: "flags txn = flgs" using h by simp
      have 2: "find_write_nodes e flgs (ctx_map txn) [] [] w_start =
                       Some (Continue (cm, ds_fin, w_fin)) \<and>
                     commit e doThrow txn w_start =
                       Some (commit_phases e doThrow (consistent_snapshot_tid e w_start)
                               (txn\<lparr>ctx_map := cm\<rparr>) ds_fin w_fin)"
        if r: "find_write_nodes_ctx e flgs bt wpost (ctx', dbtuples', w3) =
                       Some (Continue (ctx_end, ds_end, w_end)) \<and>
                     find_write_nodes e flgs cpost (visited @ [(bt, ctx_end)]) ds_end w_end =
                       Some (Continue (cm, ds_fin, w_fin))"
        for ctx_end ds_end w_end cm ds_fin w_fin
      proof -
        have a: "state txn = TXN_EMBRYO \<or> state txn = TXN_ACTIVE" using h by simp
        have b: "ctx_map txn = cpre @ (bt, ctx_start) # cpost" using h by simp
        have c: "flags txn AND TXN_FLAG_READ_ONLY = 0" using h by simp
        have d: "find_write_nodes e (flags txn) cpre [] [] w_start = Some (Continue (visited, ds0, w0))"
          using h by simp
        have f: "write_set ctx_start \<noteq> []" using ws by simp
        have g: "find_write_nodes_ctx e (flags txn) bt (write_set ctx_start) (ctx_start, ds0, w0) =
                Some (Continue (ctx_end, ds_end, w_end))"
          unfolding fl 1 using r by simp
        have i: "find_write_nodes e (flags txn) cpost (visited @ [(bt, ctx_end)]) ds_end w_end =
                 Some (Continue (cm, ds_fin, w_fin))"
          unfolding fl using r by simp
        note fc = find_write_nodes_ctx_continue_commit[OF a b c d f g i]
        from fc(1) fc(2)[of doThrow] show ?thesis unfolding fl by simp
      qed
      from 1 2 show ?thesis by blast
    qed
    have E: "\<forall>ctx' dbtuples'.
               find_write_node e flgs bt k writerec try_insert_path (ctx, dbtuples, w) =
                 Some (Continue (ctx', dbtuples', w3)) \<longrightarrow>
               node_scan ctx' = AList.update node (v + 1) (node_scan ctx) \<and>
               dbtuples' = ds1 \<and>
               (\<forall>(txn :: 'k transaction) doThrow w_start cpre cpost ctx_start visited ds0 w0 wpre wpost w_k.
                  (state txn = TXN_EMBRYO \<or> state txn = TXN_ACTIVE) \<and> flags txn = flgs \<and>
                  flgs AND TXN_FLAG_READ_ONLY = 0 \<and>
                  ctx_map txn = cpre @ (bt, ctx_start) # cpost \<and>
                  find_write_nodes e flgs cpre [] [] w_start = Some (Continue (visited, ds0, w0)) \<and>
                  write_set ctx_start = wpre @ (k, writerec) # wpost \<and>
                  find_write_nodes_ctx e flgs bt wpre (ctx_start, ds0, w0) =
                    Some (Continue (ctx, dbtuples, w_k)) \<and>
                  find_write_node e flgs bt k writerec (insert_w writerec) (ctx, dbtuples, w_k) =
                    find_write_node e flgs bt k writerec try_insert_path (ctx, dbtuples, w) \<longrightarrow>
                  find_write_nodes_ctx e flgs bt (write_set ctx_start) (ctx_start, ds0, w0) =
                    find_write_nodes_ctx e flgs bt wpost (ctx', dbtuples', w3) \<and>
                  (\<forall>ctx_end ds_end w_end cm ds_fin w_fin.
                     find_write_nodes_ctx e flgs bt wpost (ctx', dbtuples', w3) =
                       Some (Continue (ctx_end, ds_end, w_end)) \<and>
                     find_write_nodes e flgs cpost (visited @ [(bt, ctx_end)]) ds_end w_end =
                       Some (Continue (cm, ds_fin, w_fin)) \<longrightarrow>
                     find_write_nodes e flgs (ctx_map txn) [] [] w_start =
                       Some (Continue (cm, ds_fin, w_fin)) \<and>
                     commit e doThrow txn w_start =
                       Some (commit_phases e doThrow (consistent_snapshot_tid e w_start)
                               (txn\<lparr>ctx_map := cm\<rparr>) ds_fin w_fin)))"
    proof (intro allI impI conjI)
      fix ctx' dbtuples'
      assume step: "find_write_node e flgs bt k writerec try_insert_path (ctx, dbtuples, w) =
                 Some (Continue (ctx', dbtuples', w3))"
      then have s: "write_inserted flgs bt k writerec tup (Some node, ver) (ctx, dbtuples, w3) =
            Continue (ctx', dbtuples', w3)" unfolding fw by simp
      from C[OF s] show "node_scan ctx' = AList.update node (v + 1) (node_scan ctx)"
        by (rule conjunct1)
      from C[OF s] show "dbtuples' = ds1" by (rule conjunct2)
      fix txn :: "'k transaction" and doThrow w_start cpre cpost ctx_start visited ds0 w0 wpre wpost w_k
      assume h: "(state txn = TXN_EMBRYO \<or> state txn = TXN_ACTIVE) \<and> flags txn = flgs \<and>
                  flgs AND TXN_FLAG_READ_ONLY = 0 \<and>
                  ctx_map txn = cpre @ (bt, ctx_start) # cpost \<and>
                  find_write_nodes e flgs cpre [] [] w_start = Some (Continue (visited, ds0, w0)) \<and>
                  write_set ctx_start = wpre @ (k, writerec) # wpost \<and>
                  find_write_nodes_ctx e flgs bt wpre (ctx_start, ds0, w0) =
                    Some (Continue (ctx, dbtuples, w_k)) \<and>
                  find_write_node e flgs bt k writerec (insert_w writerec) (ctx, dbtuples, w_k) =
                    find_write_node e flgs bt k writerec try_insert_path (ctx, dbtuples, w)"
      note d = D[OF step h]
      from d show "find_write_nodes_ctx e flgs bt (write_set ctx_start) (ctx_start, ds0, w0) =
                    find_write_nodes_ctx e flgs bt wpost (ctx', dbtuples', w3)"
        by (rule conjunct1)
      fix ctx_end ds_end w_end cm ds_fin w_fin
      assume r: "find_write_nodes_ctx e flgs bt wpost (ctx', dbtuples', w3) =
                       Some (Continue (ctx_end, ds_end, w_end)) \<and>
                     find_write_nodes e flgs cpost (visited @ [(bt, ctx_end)]) ds_end w_end =
                       Some (Continue (cm, ds_fin, w_fin))"
      from d have d2: "\<forall>ctx_end ds_end w_end cm ds_fin w_fin.
                     find_write_nodes_ctx e flgs bt wpost (ctx', dbtuples', w3) =
                       Some (Continue (ctx_end, ds_end, w_end)) \<and>
                     find_write_nodes e flgs cpost (visited @ [(bt, ctx_end)]) ds_end w_end =
                       Some (Continue (cm, ds_fin, w_fin)) \<longrightarrow>
                     find_write_nodes e flgs (ctx_map txn) [] [] w_start =
                       Some (Continue (cm, ds_fin, w_fin)) \<and>
                     commit e doThrow txn w_start =
                       Some (commit_phases e doThrow (consistent_snapshot_tid e w_start)
                               (txn\<lparr>ctx_map := cm\<rparr>) ds_fin w_fin)"
        by (rule conjunct2)
      note d3 = d2[THEN spec, THEN spec, THEN spec, THEN spec, THEN spec, THEN spec, THEN mp, OF r]
      from d3 show "find_write_nodes e flgs (ctx_map txn) [] [] w_start =
                       Some (Continue (cm, ds_fin, w_fin))" by (rule conjunct1)
      from d3 show "commit e doThrow txn w_start =
                       Some (commit_phases e doThrow (consistent_snapshot_tid e w_start)
                               (txn\<lparr>ctx_map := cm\<rparr>) ds_fin w_fin)" by (rule conjunct2)
    qed
    have A': "\<exists>ctx' dbtuples'.
               (find_write_node e flgs bt k writerec try_insert_path (ctx, dbtuples, w) =
                  Some (Continue (ctx', dbtuples', w3)) \<or>
                find_write_node e flgs bt k writerec try_insert_path (ctx, dbtuples, w) =
                  Some (Fault (ctx', dbtuples', w3))) \<and>
               node_scan ctx' = AList.update node (v + 1) (node_scan ctx) \<and>
               map_of (node_scan ctx') = (map_of (node_scan ctx))(node \<mapsto> v + 1)"
      using A unfolding fw by simp
    have B': "(\<forall>rr. map_of (read_set ctx) tup = Some rr \<longrightarrow> \<not> holds_lock rr) \<and>
             (\<forall>ar. map_of (absent_set ctx) k = Some ar \<longrightarrow> type ar = ABSENT_REC_READ) \<longrightarrow>
               (\<exists>ctx'. find_write_node e flgs bt k writerec try_insert_path (ctx, dbtuples, w) =
                  Some (Continue (ctx', ds1, w3)))"
      using B unfolding fw by simp
    have i1: ?I1 by (rule A')
    have i2: ?I2 by (rule B'[unfolded ds1_def])
    have i3: ?I3 by (rule E[unfolded ds1_def])
    show ?thesis
    proof (rule conjI)
      show "v \<noteq> ver \<longrightarrow> ?AB" using True by simp
      show "v = ver \<longrightarrow> ?I1 \<and> ?I2 \<and> ?I3"
        by (rule impI) (rule conjI[OF i1 conjI[OF i2 i3]])
    qed
  qed
qed

theorem insert_checks_node_scan_witness:
  "find_write_node example_env 1 0 2 \<lparr>r = ''x'', insert_w = True\<rparr> True
     ((example_ctx [])\<lparr>node_scan := [(7, 2)]\<rparr>, [], []) =
     Some (Abort ABORT_REASON_WRITE_NODE_INTERFERENCE
             ((example_ctx [])\<lparr>node_scan := [(7, 2)]\<rparr>, [], [20])) \<and>
   aborted_with False ABORT_REASON_WRITE_NODE_INTERFERENCE
     (commit example_env False
        \<lparr>state = TXN_ACTIVE, reason = ABORT_REASON_USER, flags = 1,
         ctx_map = [(0, (example_ctx [(2, \<lparr>r = ''x'', insert_w = True\<rparr>)])\<lparr>node_scan := [(7, 2)]\<rparr>)]\<rparr> []) \<and>
   find_write_nodes example_env 1
     [(0, (example_ctx [(2, \<lparr>r = ''x'', insert_w = True\<rparr>)])\<lparr>node_scan := [(7, 3)]\<rparr>)] [] [] [] =
     Some (Continue
       ([(0, (example_ctx [(2, \<lparr>r = ''x'', insert_w = True\<rparr>)])\<lparr>node_scan := [(7, 4)]\<rparr>)],
        [(20, \<lparr>btr = 0, key = 2, insert_i = True, r_i = ''x'', locked = True\<rparr>)], [20])) \<and>
   commit example_env False
     \<lparr>state = TXN_ACTIVE, reason = ABORT_REASON_USER, flags = 1,
      ctx_map = [(0, (example_ctx [(2, \<lparr>r = ''x'', insert_w = True\<rparr>)])\<lparr>node_scan := [(7, 3)]\<rparr>)]\<rparr> [] =
     Some (Returned True,
           \<lparr>state = TXN_COMMITED, reason = ABORT_REASON_USER, flags = 1,
            ctx_map = [(0, (example_ctx [(2, \<lparr>r = ''x'', insert_w = True\<rparr>)])\<lparr>node_scan := [(7, 4)]\<rparr>)]\<rparr>,
           [20])"
proof -
  let ?wr = "\<lparr>r = ''x'', insert_w = True\<rparr>"
  let ?ctx = "(example_ctx [])\<lparr>node_scan := [(7, 2)]\<rparr>"
  let ?ctx2 = "(example_ctx [(2, ?wr)])\<lparr>node_scan := [(7, 2)]\<rparr>"
  let ?ctx3 = "(example_ctx [(2, ?wr)])\<lparr>node_scan := [(7, 3)]\<rparr>"
  let ?ctx4 = "(example_ctx [(2, ?wr)])\<lparr>node_scan := [(7, 4)]\<rparr>"
  let ?txn = "\<lparr>state = TXN_ACTIVE, reason = ABORT_REASON_USER, flags = 1, ctx_map = [(0, ?ctx2)]\<rparr>"
  let ?txn3 = "\<lparr>state = TXN_ACTIVE, reason = ABORT_REASON_USER, flags = 1, ctx_map = [(0, ?ctx3)]\<rparr>"
  let ?ds = "[(20, \<lparr>btr = 0, key = 2 :: nat, insert_i = True, r_i = ''x'', locked = True\<rparr>)]"
  have 1: "(1 :: 64 word) AND TXN_FLAG_LOW_LEVEL_SCAN \<noteq> 0"
    by (simp add: TXN_FLAG_LOW_LEVEL_SCAN_def)
  have 2: "True \<or> search example_env 0 (2::nat) [] = None" by simp
  have 3: "alloc_first example_env (\<not> is_mostly_append example_env 0) (r ?wr) [] = (20, [])"
    by (simp add: example_env_def)
  have 4: "is_latest example_env 20 []" by (simp add: example_env_def)
  have 5: "lock example_env 20 True [] = (1, [20])" by (simp add: example_env_def)
  have 6: "insert_if_absent example_env 0 (2::nat) 20 [20] = (Some (Some 7, 3), [20])"
    by (simp add: example_env_def)
  have 7: "map_of (node_scan ?ctx) 7 = Some 2" by simp
  have s7: "map_of (node_scan ?ctx2) 7 = Some 2" by simp
  have s3: "map_of (node_scan ?ctx3) 7 = Some 3" by simp
  note a = insert_checks_node_scan[OF 1 2 3 4 5 6 7, of "[]"]
  note b = insert_checks_node_scan[OF 1 2 3 4 5 6 s7, of "[]"]
  note c = insert_checks_node_scan[OF 1 2 3 4 5 6 s3, of "[]"]
  from a have first: "find_write_node example_env 1 0 2 ?wr True (?ctx, [], []) =
     Some (Abort ABORT_REASON_WRITE_NODE_INTERFERENCE (?ctx, [], [20]))" by simp
  have pre: "(state ?txn = TXN_EMBRYO \<or> state ?txn = TXN_ACTIVE) \<and> flags ?txn = 1 \<and>
      (1 :: 64 word) AND TXN_FLAG_READ_ONLY = 0 \<and>
      ctx_map ?txn = [] @ (0, ?ctx2) # [] \<and>
      find_write_nodes example_env 1 [] [] [] [] = Some (Continue ([], [], [])) \<and>
      write_set ?ctx2 = [] @ (2, ?wr) # [] \<and>
      find_write_nodes_ctx example_env 1 0 [] (?ctx2, [], []) = Some (Continue (?ctx2, [], [])) \<and>
      find_write_node example_env 1 0 2 ?wr (insert_w ?wr) (?ctx2, [], []) =
        find_write_node example_env 1 0 2 ?wr True (?ctx2, [], [])"
    by (simp add: TXN_FLAG_READ_ONLY_def example_ctx_def)
  have ne2: "(2 :: 64 word) \<noteq> 3" by simp
  note b1 = b[THEN conjunct1, THEN mp, OF ne2, THEN conjunct2,
      THEN spec, THEN spec, THEN spec, THEN spec, THEN spec, THEN spec, THEN spec, THEN spec,
      THEN spec, THEN spec, THEN spec, THEN spec, THEN mp, OF pre]
  have second: "aborted_with False ABORT_REASON_WRITE_NODE_INTERFERENCE
      (commit example_env False ?txn [])"
    by (rule b1)
  have inv: "(\<forall>rr. map_of (read_set ?ctx3) 20 = Some rr \<longrightarrow> \<not> holds_lock rr) \<and>
      (\<forall>ar. map_of (absent_set ?ctx3) (2 :: nat) = Some ar \<longrightarrow> type ar = ABSENT_REC_READ)"
    by (simp add: example_ctx_def)
  note c2 = c[THEN conjunct2, THEN mp, OF refl]
  from c2[THEN conjunct2, THEN conjunct1, THEN mp, OF inv] obtain ctx' where
    step: "find_write_node example_env 1 0 2 ?wr True (?ctx3, [], []) =
      Some (Continue (ctx', [] @ [(20, \<lparr>btr = 0, key = 2, insert_i = True, r_i = r ?wr, locked = True\<rparr>)], [20]))"
    by blast
  have val: "find_write_node example_env 1 0 2 ?wr True (?ctx3, [], []) =
      Some (Continue (?ctx4, ?ds, [20]))"
    by (simp add: example_simps)
  note c3 = c2[THEN conjunct2, THEN conjunct2, THEN spec, THEN spec, THEN mp, OF val]
  have pre3: "(state ?txn3 = TXN_EMBRYO \<or> state ?txn3 = TXN_ACTIVE) \<and> flags ?txn3 = 1 \<and>
      (1 :: 64 word) AND TXN_FLAG_READ_ONLY = 0 \<and>
      ctx_map ?txn3 = [] @ (0, ?ctx3) # [] \<and>
      find_write_nodes example_env 1 [] [] [] [] = Some (Continue ([], [], [])) \<and>
      write_set ?ctx3 = [] @ (2, ?wr) # [] \<and>
      find_write_nodes_ctx example_env 1 0 [] (?ctx3, [], []) = Some (Continue (?ctx3, [], [])) \<and>
      find_write_node example_env 1 0 2 ?wr (insert_w ?wr) (?ctx3, [], []) =
        find_write_node example_env 1 0 2 ?wr True (?ctx3, [], [])"
    by (simp add: TXN_FLAG_READ_ONLY_def example_ctx_def)
  note c4 = c3[THEN conjunct2, THEN conjunct2,
      THEN spec, THEN spec, THEN spec, THEN spec, THEN spec, THEN spec, THEN spec, THEN spec,
      THEN spec, THEN spec, THEN spec, THEN spec, THEN mp, OF pre3]
  have rest: "find_write_nodes_ctx example_env 1 0 [] (?ctx4, ?ds, [20]) =
        Some (Continue (?ctx4, ?ds, [20])) \<and>
      find_write_nodes example_env 1 [] ([] @ [(0, ?ctx4)]) ?ds [20] =
        Some (Continue ([(0, ?ctx4)], ?ds, [20]))"
    by simp
  note c5 = c4[THEN conjunct2, THEN spec, THEN spec, THEN spec, THEN spec, THEN spec, THEN spec,
      THEN mp, OF rest]
  from c5 have third: "find_write_nodes example_env 1 [(0, ?ctx3)] [] [] [] =
      Some (Continue ([(0, ?ctx4)], ?ds, [20]))"
    by simp
  from c5[of False] have "commit example_env False ?txn3 [] =
      Some (commit_phases example_env False (consistent_snapshot_tid example_env [])
              (?txn3\<lparr>ctx_map := [(0, ?ctx4)]\<rparr>) ?ds [20])"
    by (rule conjunct2)
  then have fourth: "commit example_env False ?txn3 [] =
     Some (Returned True,
           \<lparr>state = TXN_COMMITED, reason = ABORT_REASON_USER, flags = 1, ctx_map = [(0, ?ctx4)]\<rparr>,
           [20])"
    by (simp add: commit_phases_def lock_phase_def sort_dbtuples_def validate_and_write_def
        validate_context_def finish_commit_def clear_def example_simps)
  from first second third fourth show ?thesis by simp
qed

end
